theory Spec2Isabelle
  imports Main "HOL-Library.Char_ord" "HOL-Library.List_Lexorder" "HOL-Library.Multiset"
begin

section \<open>Data model\<close>

text \<open>
  \<^verbatim>\<open>type ValueSource string\<close> with its five constants. The priority table
  \<^verbatim>\<open>valueSourcePriority\<close> lists them highest first.
\<close>

datatype ValueSource =
    ValueSourceNone
  | ValueSourceFlag
  | ValueSourceEnv
  | ValueSourceYAML
  | ValueSourceDefault

definition valueSourcePriority :: "ValueSource list" where
  "valueSourcePriority =
     [ValueSourceFlag, ValueSourceEnv, ValueSourceYAML, ValueSourceDefault, ValueSourceNone]"

text \<open>\<^verbatim>\<open>slices.Index\<close>: the first position of an element, or \<open>-1\<close>.\<close>

fun Index :: "'a list \<Rightarrow> 'a \<Rightarrow> int" where
  "Index [] v = -1"
| "Index (x # xs) v = (if x = v then 0 else (let r = Index xs v in if r < 0 then -1 else r + 1))"

text \<open>
  \<^verbatim>\<open>Group\<close>: a parent-linked hierarchy node. \<^verbatim>\<open>Ancestry\<close> walks the parent
  pointers and prepends, so the result runs from the root to the group itself; a nil
  group has no ancestry.
\<close>

datatype Group = Group (Group_Parent: "Group option") (Group_Name: string) (Group_YAML: string)

fun Ancestry_up :: "Group \<Rightarrow> Group list" where
  "Ancestry_up (Group None n y) = [Group None n y]"
| "Ancestry_up (Group (Some p) n y) = Ancestry_up p @ [Group (Some p) n y]"

definition Ancestry :: "Group option \<Rightarrow> Group list" where
  "Ancestry g = (case g of None \<Rightarrow> [] | Some g' \<Rightarrow> Ancestry_up g')"

text \<open>
  A \<^verbatim>\<open>pflag.Value\<close> is an interface holding a pointer; several options may hold
  the same pointer. A value is therefore a reference into a store, and \<open>None\<close> is the
  nil interface.
\<close>

type_synonym ref = nat

type_synonym 'v store = "ref \<Rightarrow> 'v"

record Option =
  Name :: string
  Required :: bool
  Flag :: string
  FlagShorthand :: string
  Env :: string
  YAML :: string
  Default :: string
  Value :: "ref option"
  OptGroup :: "Group option"
  Hidden :: bool
  ValueSource :: ValueSource

record EnvVar =
  EnvVar_Name :: string
  EnvVar_Value :: string

text \<open>
  \<^verbatim>\<open>strings.Join\<close> and \<^verbatim>\<open>Option.YAMLPath\<close>.
\<close>

fun Join :: "string list \<Rightarrow> string \<Rightarrow> string" where
  "Join [] sep = []"
| "Join [x] sep = x"
| "Join (x # y # ys) sep = x @ sep @ Join (y # ys) sep"

definition YAMLPath :: "Option \<Rightarrow> string" where
  "YAMLPath o' =
     (if YAML o' = [] then []
      else Join (map Group_YAML (Ancestry (OptGroup o')) @ [YAML o']) ''.'')"

text \<open>
  Errors. \<^verbatim>\<open>multierror\<close> joins errors into a list; \<^verbatim>\<open>ErrorOrNil\<close> of the empty
  list is nil. The texts of \<^verbatim>\<open>fmt.Errorf\<close> are kept as constructors with the
  formatted arguments.
\<close>

datatype FlagErr = ErrHelp | FlagError string

datatype Err =
    ParseErr string string
  | NoValueErr string
  | MultipleDefaultsErr string string string string
  | ParsingEnvErr "Err list"
  | DuplicateCommandNameErr string
  | ReadingYAMLErr string
  | DecodingYAMLErr string
  | ApplyingYAMLErr "Err list"
  | SettingDefaultsErr "Err list"
  | ParsingFlagsErr "string list" string FlagErr
  | MissingRequiredErr "string list"
  | UnknownSubcommandError "string list"
  | RunCommandError string Err
  | TemplateErr string
  | OtherErr string

section \<open>ParseEnv\<close>

text \<open>
  \<^verbatim>\<open>Value.Set\<close> belongs to the concrete value types, which are consumed through the
  interface only: it is a parameter \<open>vset\<close>, taking the value's state and the text and
  returning the error, if any, and the state after the call.

  The body of the loop of \<^verbatim>\<open>ParseEnv\<close>, for one option: look the binding up, fall
  back to the \<^verbatim>\<open>HOMEBREW_\<close> name when it is absent, skip an absent or empty
  value, otherwise mark the source and call \<^verbatim>\<open>Set\<close>. A method call on a nil
  \<^verbatim>\<open>Value\<close> panics: the result is \<open>None\<close>.
\<close>

type_synonym 'v setter = "'v \<Rightarrow> string \<Rightarrow> string option \<times> 'v"

definition ParseEnv_body ::
  "'v setter \<Rightarrow> (string \<rightharpoonup> string) \<Rightarrow> Option \<Rightarrow> 'v store \<Rightarrow> (Option \<times> 'v store \<times> Err list) option"
where
  "ParseEnv_body vset envs opt st =
     (if Env opt = [] then Some (opt, st, [])
      else
        let (envVal, ok) =
              (case envs (Env opt) of
                 Some v \<Rightarrow> (v, True)
               | None \<Rightarrow>
                   (case envs (''HOMEBREW_'' @ Env opt) of
                      Some v \<Rightarrow> (v, True)
                    | None \<Rightarrow> ([], False)))
        in if \<not> ok \<or> envVal = [] then Some (opt, st, [])
           else
             (case Value opt of
                None \<Rightarrow> None
              | Some a \<Rightarrow>
                  (case vset (st a) envVal of
                     (None, v') \<Rightarrow> Some (opt\<lparr>ValueSource := ValueSourceEnv\<rparr>, st(a := v'), [])
                   | (Some e, v') \<Rightarrow>
                       Some (opt\<lparr>ValueSource := ValueSourceEnv\<rparr>, st(a := v'),
                             [ParseErr (Name opt) e]))))"

fun ParseEnv_loop ::
  "'v setter \<Rightarrow> (string \<rightharpoonup> string) \<Rightarrow> Option list \<Rightarrow> 'v store \<Rightarrow> Err list
     \<Rightarrow> (Option list \<times> 'v store \<times> Err list) option"
where
  "ParseEnv_loop vset envs [] st merr = Some ([], st, merr)"
| "ParseEnv_loop vset envs (opt # rest) st merr =
     (case ParseEnv_body vset envs opt st of
        None \<Rightarrow> None
      | Some (opt', st', es) \<Rightarrow>
          (case ParseEnv_loop vset envs rest st' (merr @ es) of
             None \<Rightarrow> None
           | Some (rest', st'', merr') \<Rightarrow> Some (opt' # rest', st'', merr')))"

text \<open>The map built from the environment snapshot: a later entry of a name wins.\<close>

definition envMap :: "EnvVar list \<Rightarrow> (string \<rightharpoonup> string)" where
  "envMap vs = fold (\<lambda>v m. m(EnvVar_Name v \<mapsto> EnvVar_Value v)) vs Map.empty"

definition ParseEnv ::
  "'v setter \<Rightarrow> EnvVar list \<Rightarrow> Option list \<Rightarrow> 'v store
     \<Rightarrow> (Option list \<times> 'v store \<times> Err list) option"
where
  "ParseEnv vset vs optSet st = ParseEnv_loop vset (envMap vs) optSet st []"

section \<open>SetDefaults\<close>

text \<open>
  The first loop groups the options by their value pointer; an option without a value
  is reported and left out. A group is the list of the positions of its members, in
  order.
\<close>

fun groupByValue_loop ::
  "Option list \<Rightarrow> nat \<Rightarrow> (ref \<rightharpoonup> nat list) \<Rightarrow> Err list \<Rightarrow> (ref \<rightharpoonup> nat list) \<times> Err list"
where
  "groupByValue_loop [] i g merr = (g, merr)"
| "groupByValue_loop (opt # rest) i g merr =
     (case Value opt of
        None \<Rightarrow> groupByValue_loop rest (Suc i) g (merr @ [NoValueErr (Name opt)])
      | Some a \<Rightarrow>
          groupByValue_loop rest (Suc i)
            (g(a \<mapsto> (case g a of None \<Rightarrow> [] | Some l \<Rightarrow> l) @ [i])) merr)"

definition sortOptionByValueSourcePriorityOrDefault :: "Option \<Rightarrow> Option \<Rightarrow> int" where
  "sortOptionByValueSourcePriorityOrDefault a b =
     (if ValueSource a \<noteq> ValueSource b
      then Index valueSourcePriority (ValueSource a) - Index valueSourcePriority (ValueSource b)
      else if Default a \<noteq> Default b
      then (if Default a = [] then 1 else if Default b = [] then -1 else 0)
      else 0)"

text \<open>
  \<^verbatim>\<open>slices.SortFunc\<close> of the Go library. A slice of up to twelve elements is sorted
  by insertion: an element moves left while it compares below its left neighbour
  (\<open>insertLeft\<close> works on the reversed sorted prefix). A longer slice is sorted by a
  pattern-defeating quicksort, which is not stable: the result is ordered by \<open>cmp\<close>,
  and the library does not say in which order elements that compare equal come out.
  Every result that is ordered by \<open>cmp\<close> is the insertion sort of a rearrangement of
  the input, so the order of the ties of a long slice is the parameter \<open>tie\<close>: the
  rearrangement on which the insertion runs (the input itself when \<open>tie\<close> does not
  return a rearrangement).
\<close>

fun insertLeft :: "('a \<Rightarrow> 'a \<Rightarrow> int) \<Rightarrow> 'a \<Rightarrow> 'a list \<Rightarrow> 'a list" where
  "insertLeft cmp x [] = [x]"
| "insertLeft cmp x (y # ys) = (if cmp x y < 0 then y # insertLeft cmp x ys else x # y # ys)"

definition insertionSortCmpFunc :: "('a \<Rightarrow> 'a \<Rightarrow> int) \<Rightarrow> 'a list \<Rightarrow> 'a list" where
  "insertionSortCmpFunc cmp xs = rev (fold (insertLeft cmp) xs [])"

definition SortFunc :: "('a list \<Rightarrow> 'a list) \<Rightarrow> ('a \<Rightarrow> 'a \<Rightarrow> int) \<Rightarrow> 'a list \<Rightarrow> 'a list" where
  "SortFunc tie cmp xs =
     (if length xs \<le> 12 then insertionSortCmpFunc cmp xs
      else insertionSortCmpFunc cmp (if mset (tie xs) = mset xs then tie xs else xs))"

text \<open>
  The scan for the option whose default is applied: the first member with a non-empty
  default, replaced by a later member with the same literal; a member with a different
  literal is reported and skipped.
\<close>

fun defaultScan :: "Option list \<Rightarrow> nat list \<Rightarrow> nat option \<Rightarrow> Err list \<Rightarrow> nat option \<times> Err list" where
  "defaultScan os [] optWithDefault merr = (optWithDefault, merr)"
| "defaultScan os (i # rest) optWithDefault merr =
     (if Default (os ! i) = [] then defaultScan os rest optWithDefault merr
      else
        (case optWithDefault of
           Some j \<Rightarrow>
             (if Default (os ! j) \<noteq> Default (os ! i)
              then defaultScan os rest optWithDefault
                     (merr @ [MultipleDefaultsErr (Name (os ! i)) (Default (os ! i))
                                (Default (os ! j)) (Name (os ! j))])
              else defaultScan os rest (Some i) merr)
         | None \<Rightarrow> defaultScan os rest (Some i) merr))"

definition setSource :: "ValueSource \<Rightarrow> nat list \<Rightarrow> Option list \<Rightarrow> Option list" where
  "setSource src is os = fold (\<lambda>i os'. os'[i := (os' ! i)\<lparr>ValueSource := src\<rparr>]) is os"

text \<open>
  The body of the second loop, for one group \<open>idxs\<close>. The members are pointers into
  the option set: reading one is \<open>os ! i\<close>, writing its source is \<open>setSource\<close>.
\<close>

definition SetDefaults_group ::
  "(nat list \<Rightarrow> nat list) \<Rightarrow> 'v setter \<Rightarrow> nat list \<Rightarrow> Option list \<times> 'v store \<times> Err list \<Rightarrow> Option list \<times> 'v store \<times> Err list"
where
  "SetDefaults_group tie vset idxs s =
     (case s of (os, st, merr) \<Rightarrow>
        (case SortFunc tie (\<lambda>i j. sortOptionByValueSourcePriorityOrDefault (os ! i) (os ! j)) idxs of
           [] \<Rightarrow> (os, st, merr)
         | first # others \<Rightarrow>
             if ValueSource (os ! first) \<noteq> ValueSourceNone
             then (setSource (ValueSource (os ! first)) others os, st, merr)
             else
               (case defaultScan os (first # others) None merr of
                  (None, merr1) \<Rightarrow> (os, st, merr1)
                | (Some d, merr1) \<Rightarrow>
                    (case Value (os ! d) of
                       None \<Rightarrow> (os, st, merr1)
                     | Some a \<Rightarrow>
                         (case vset (st a) (Default (os ! d)) of
                            (None, v') \<Rightarrow>
                              (setSource ValueSourceDefault (first # others) os, st(a := v'), merr1)
                          | (Some e, v') \<Rightarrow>
                              (setSource ValueSourceDefault (first # others) os, st(a := v'),
                               merr1 @ [ParseErr (Name (os ! d)) e]))))))"

text \<open>
  Go iterates over a map in an unspecified order: \<open>SetDefaults_in\<close> takes the order
  \<open>ks\<close> of the keys as an argument, and \<open>iterationOrder\<close> says that \<open>ks\<close> is an
  order of the keys of the map built from the option set. \<open>SetDefaults\<close> fixes the
  order of first appearance.
\<close>

definition SetDefaults_in ::
  "(nat list \<Rightarrow> nat list) \<Rightarrow> 'v setter \<Rightarrow> ref list \<Rightarrow> Option list \<Rightarrow> 'v store \<Rightarrow> Option list \<times> 'v store \<times> Err list"
where
  "SetDefaults_in tie vset ks optSet st =
     (case groupByValue_loop optSet 0 Map.empty [] of
        (g, merr) \<Rightarrow>
          fold (\<lambda>k s. case g k of None \<Rightarrow> s | Some idxs \<Rightarrow> SetDefaults_group tie vset idxs s)
            ks (optSet, st, merr))"

definition valueRefs :: "Option list \<Rightarrow> ref list" where
  "valueRefs optSet = List.map_filter Value optSet"

definition iterationOrder :: "Option list \<Rightarrow> ref list \<Rightarrow> bool" where
  "iterationOrder optSet ks \<longleftrightarrow> distinct ks \<and> set ks = set (valueRefs optSet)"

definition SetDefaults ::
  "(nat list \<Rightarrow> nat list) \<Rightarrow> 'v setter \<Rightarrow> Option list \<Rightarrow> 'v store \<Rightarrow> Option list \<times> 'v store \<times> Err list"
where
  "SetDefaults tie vset optSet st =
     SetDefaults_in tie vset (rev (remdups (rev (valueRefs optSet)))) optSet st"

section \<open>Flag sets\<close>

text \<open>
  The flag set of the \<^verbatim>\<open>pflag\<close> library, as far as the dispatch uses it. A
  \<^verbatim>\<open>pflag.Flag\<close> is a record; its value is a reference, and \<open>None\<close> stands for the
  shared \<^verbatim>\<open>DiscardValue\<close>, whose \<^verbatim>\<open>Set\<close> does nothing. A \<^verbatim>\<open>pflag.FlagSet\<close>
  maps names to flags and shorthand letters to flags: it is the list of its flags in
  the order in which they were added.
\<close>

record Flag =
  Flag_Name :: string
  Shorthand :: string
  Flag_Value :: "ref option"
  NoOptDefVal :: string
  Changed :: bool
  Flag_Hidden :: bool

type_synonym FlagSet = "Flag list"

datatype Panic =
    FlagRedefined string
  | ShorthandTooLong string
  | ShorthandRedefined string string
  | NilValue
  | FindArgPanic string

text \<open>
  \<^verbatim>\<open>Lookup\<close> finds a flag by name. \<^verbatim>\<open>AddFlag\<close> panics when the name is already
  there, when the shorthand has more than one character, and when the shorthand is
  already used by a flag of the set. \<^verbatim>\<open>VisitAll\<close> visits the flags in the
  lexicographical order of their names.
\<close>

definition Lookup :: "FlagSet \<Rightarrow> string \<Rightarrow> Flag option" where
  "Lookup fs name = find (\<lambda>f. Flag_Name f = name) fs"

definition AddFlag :: "Flag \<Rightarrow> FlagSet \<Rightarrow> Panic + FlagSet" where
  "AddFlag flag fs =
     (if Lookup fs (Flag_Name flag) \<noteq> None then Inl (FlagRedefined (Flag_Name flag))
      else if Shorthand flag = [] then Inr (fs @ [flag])
      else if length (Shorthand flag) > 1 then Inl (ShorthandTooLong (Shorthand flag))
      else
        (case find (\<lambda>g. Shorthand g = Shorthand flag) fs of
           Some used \<Rightarrow> Inl (ShorthandRedefined (Shorthand flag) (Flag_Name used))
         | None \<Rightarrow> Inr (fs @ [flag])))"

definition VisitAll :: "FlagSet \<Rightarrow> Flag list" where
  "VisitAll fs = sort_key Flag_Name fs"

text \<open>
  \<^verbatim>\<open>copyFlagSetWithout\<close>: a new flag set that receives, by \<^verbatim>\<open>AddFlag\<close>, every flag
  of \<open>fs\<close> but the one named \<open>without\<close>.
\<close>

fun AddFlags :: "Flag list \<Rightarrow> FlagSet \<Rightarrow> Panic + FlagSet" where
  "AddFlags [] fs2 = Inr fs2"
| "AddFlags (f # rest) fs2 =
     (case AddFlag f fs2 of Inl p \<Rightarrow> Inl p | Inr fs3 \<Rightarrow> AddFlags rest fs3)"

definition copyFlagSetWithout :: "FlagSet \<Rightarrow> string \<Rightarrow> Panic + FlagSet" where
  "copyFlagSetWithout fs without =
     AddFlags (filter (\<lambda>f. Flag_Name f \<noteq> without) (VisitAll fs)) []"

text \<open>
  The callback that \<^verbatim>\<open>run\<close> passes to \<^verbatim>\<open>VisitAll\<close> over the flags of the command:
  a flag whose name is already in the accumulated set \<open>parsedFlags\<close> replaces the one
  there, which is done by copying the set without that name and adding the flag.
\<close>

definition mergeFlag :: "Flag \<Rightarrow> FlagSet \<Rightarrow> Panic + FlagSet" where
  "mergeFlag f parsedFlags =
     (if Lookup parsedFlags (Flag_Name f) \<noteq> None
      then (case copyFlagSetWithout parsedFlags (Flag_Name f) of
              Inl p \<Rightarrow> Inl p
            | Inr parsedFlags' \<Rightarrow> AddFlag f parsedFlags')
      else AddFlag f parsedFlags)"

fun mergeFlags :: "Flag list \<Rightarrow> FlagSet \<Rightarrow> Panic + FlagSet" where
  "mergeFlags [] parsedFlags = Inr parsedFlags"
| "mergeFlags (f # rest) parsedFlags =
     (case mergeFlag f parsedFlags of
        Inl p \<Rightarrow> Inl p
      | Inr parsedFlags' \<Rightarrow> mergeFlags rest parsedFlags')"

section \<open>Test values\<close>

text \<open>
  Modelled from the spec: the typed values (\<^verbatim>\<open>values.go\<close> is not among the
  sources). The spec gives a value the operation \<^verbatim>\<open>Set(raw string) error\<close>, which
  parses a text and fails on malformed input. Two value types serve as inputs of the
  examples: a string, which accepts every text, and a boolean, which accepts the
  literals of \<^verbatim>\<open>strconv.ParseBool\<close> and the empty text.
\<close>

datatype Val = StringVal string | BoolVal bool

definition ParseBool :: "string \<Rightarrow> bool option" where
  "ParseBool s =
     (if s \<in> set [''1'', ''t'', ''T'', ''TRUE'', ''true'', ''True''] then Some True
      else if s \<in> set [''0'', ''f'', ''F'', ''FALSE'', ''false'', ''False''] then Some False
      else None)"

fun Val_Set :: "Val setter" where
  "Val_Set (StringVal old) s = (None, StringVal s)"
| "Val_Set (BoolVal old) s =
     (if s = [] then (None, BoolVal False)
      else
        (case ParseBool s of
           Some b \<Rightarrow> (None, BoolVal b)
         | None \<Rightarrow> (Some ''invalid syntax'', BoolVal False)))"

definition newOption :: Option where
  "newOption =
     \<lparr>Name = [], Required = False, Flag = [], FlagShorthand = [], Env = [], YAML = [],
      Default = [], Value = None, OptGroup = None, Hidden = False,
      ValueSource = ValueSourceNone\<rparr>"

section \<open>What ParseEnv computes\<close>

text \<open>
  The environment value that applies to an option, in the words of the spec: the
  binding name is looked up, the prefixed name is tried when it is absent, and an empty
  value counts as unset.
\<close>

definition envBinding :: "(string \<rightharpoonup> string) \<Rightarrow> Option \<Rightarrow> string option" where
  "envBinding envs opt =
     (if Env opt = [] then None
      else
        (case (case envs (Env opt) of Some v \<Rightarrow> Some v | None \<Rightarrow> envs (''HOMEBREW_'' @ Env opt)) of
           None \<Rightarrow> None
         | Some v \<Rightarrow> if v = [] then None else Some v))"

definition envMark :: "(string \<rightharpoonup> string) \<Rightarrow> Option \<Rightarrow> Option" where
  "envMark envs opt =
     (if envBinding envs opt = None then opt else opt\<lparr>ValueSource := ValueSourceEnv\<rparr>)"

text \<open>
  Every option with an applicable environment value is set, whatever happened to the
  options before it; \<open>envStore\<close> is the store after all the calls of \<^verbatim>\<open>Set\<close> and
  \<open>envParseFailures\<close> the failures of all of them, in order.
\<close>

fun envStore :: "'v setter \<Rightarrow> (string \<rightharpoonup> string) \<Rightarrow> Option list \<Rightarrow> 'v store \<Rightarrow> 'v store" where
  "envStore vset envs [] st = st"
| "envStore vset envs (opt # rest) st =
     (case envBinding envs opt of
        None \<Rightarrow> envStore vset envs rest st
      | Some v \<Rightarrow>
          (case Value opt of
             None \<Rightarrow> st
           | Some a \<Rightarrow> envStore vset envs rest (st(a := snd (vset (st a) v)))))"

fun envParseFailures :: "'v setter \<Rightarrow> (string \<rightharpoonup> string) \<Rightarrow> Option list \<Rightarrow> 'v store \<Rightarrow> Err list" where
  "envParseFailures vset envs [] st = []"
| "envParseFailures vset envs (opt # rest) st =
     (case envBinding envs opt of
        None \<Rightarrow> envParseFailures vset envs rest st
      | Some v \<Rightarrow>
          (case Value opt of
             None \<Rightarrow> []
           | Some a \<Rightarrow>
               (case fst (vset (st a) v) of None \<Rightarrow> [] | Some e \<Rightarrow> [ParseErr (Name opt) e])
               @ envParseFailures vset envs rest (st(a := snd (vset (st a) v)))))"

text \<open>No option that is about to be set lacks a value, so that the loop does not panic.\<close>

definition envValued :: "(string \<rightharpoonup> string) \<Rightarrow> Option list \<Rightarrow> bool" where
  "envValued envs optSet \<longleftrightarrow>
     (\<forall>opt \<in> set optSet. envBinding envs opt \<noteq> None \<longrightarrow> Value opt \<noteq> None)"

text \<open>
  The failure of the option at position \<open>i\<close>, if any: the error of its call of
  \<^verbatim>\<open>Set\<close>, made on the store that the options before it have left.
\<close>

definition envFailureAt ::
  "'v setter \<Rightarrow> (string \<rightharpoonup> string) \<Rightarrow> Option list \<Rightarrow> 'v store \<Rightarrow> nat \<Rightarrow> Err list" where
  "envFailureAt vset envs optSet st i =
     (case envBinding envs (optSet ! i) of
        None \<Rightarrow> []
      | Some v \<Rightarrow>
          (case Value (optSet ! i) of
             None \<Rightarrow> []
           | Some a \<Rightarrow>
               (case fst (vset (envStore vset envs (take i optSet) st a) v) of
                  None \<Rightarrow> []
                | Some e \<Rightarrow> [ParseErr (Name (optSet ! i)) e])))"

section \<open>What SetDefaults computes\<close>

text \<open>
  The position of a source in the priority table (a smaller number is a higher
  priority), and the key by which the comparison of \<^verbatim>\<open>SetDefaults\<close> orders the
  members of a group: by priority, and among equal priorities a member with a default
  first.
\<close>

definition priority :: "ValueSource \<Rightarrow> nat" where
  "priority s = nat (Index valueSourcePriority s)"

definition sourceKey :: "Option \<Rightarrow> nat" where
  "sourceKey opt = 2 * priority (ValueSource opt) + (if Default opt = [] then 1 else 0)"

text \<open>
  The group of a value: the positions of the options that hold it. Its prior source is
  the highest-priority source that a member carries before \<^verbatim>\<open>SetDefaults\<close> runs,
  its defaults are the non-empty default literals of its members, and the defaults
  conflict when two of them differ.
\<close>

definition members :: "Option list \<Rightarrow> ref \<Rightarrow> nat list" where
  "members os a = filter (\<lambda>i. Value (os ! i) = Some a) [0..<length os]"

definition priorSource :: "Option list \<Rightarrow> nat list \<Rightarrow> ValueSource" where
  "priorSource os idxs =
     (case filter (\<lambda>s. s \<in> set (map (\<lambda>i. ValueSource (os ! i)) idxs)) valueSourcePriority of
        [] \<Rightarrow> ValueSourceNone
      | s # rest \<Rightarrow> s)"

definition groupDefaults :: "Option list \<Rightarrow> nat list \<Rightarrow> string list" where
  "groupDefaults os idxs = filter (\<lambda>d. d \<noteq> []) (map (\<lambda>i. Default (os ! i)) idxs)"

definition conflicting :: "string list \<Rightarrow> bool" where
  "conflicting ds \<longleftrightarrow> (\<exists>d \<in> set ds. d \<noteq> hd ds)"

text \<open>
  The source of every member of a group after \<^verbatim>\<open>SetDefaults\<close>, in the words of the
  spec: a prior source is propagated; otherwise the group gets \<^verbatim>\<open>default\<close> when a
  member declares a default, and stays at \<^verbatim>\<open>none\<close> when none does.
\<close>

definition finalSource :: "Option list \<Rightarrow> nat list \<Rightarrow> ValueSource" where
  "finalSource os idxs =
     (if priorSource os idxs \<noteq> ValueSourceNone then priorSource os idxs
      else if groupDefaults os idxs = [] then ValueSourceNone
      else ValueSourceDefault)"

fun isMultipleDefaults :: "Err \<Rightarrow> bool" where
  "isMultipleDefaults (MultipleDefaultsErr n d d' m) = True"
| "isMultipleDefaults e = False"

text \<open>
  What one group contributes: with a prior source or without a default, nothing (the
  value \<open>x\<close> of the group after the call is the one before, and there is no error);
  otherwise one of the defaults \<open>d\<close> of the group is applied, and the errors are the
  conflicts \<open>cs\<close>, present exactly when the defaults conflict, followed by the parse
  failure of \<open>d\<close>, if any.
\<close>

definition groupOutcome ::
  "'v setter \<Rightarrow> Option list \<Rightarrow> 'v store \<Rightarrow> nat list \<Rightarrow> ref \<Rightarrow> Err list \<Rightarrow> 'v \<Rightarrow> bool" where
  "groupOutcome vset os st idxs a es x \<longleftrightarrow>
     (priorSource os idxs \<noteq> ValueSourceNone \<or> groupDefaults os idxs = [] \<longrightarrow> x = st a \<and> es = [])
   \<and> (priorSource os idxs = ValueSourceNone \<and> groupDefaults os idxs \<noteq> [] \<longrightarrow>
        (\<exists>d \<in> set (groupDefaults os idxs). \<exists>cs n.
            x = snd (vset (st a) d)
          \<and> es = cs @ (case fst (vset (st a) d) of None \<Rightarrow> [] | Some e \<Rightarrow> [ParseErr n e])
          \<and> (cs = [] \<longleftrightarrow> \<not> conflicting (groupDefaults os idxs))
          \<and> (\<forall>e \<in> set cs. isMultipleDefaults e)))"

text \<open>
  The step of the second loop of \<^verbatim>\<open>SetDefaults\<close> for the key \<open>k\<close>, and the
  errors of the first loop.
\<close>

definition groupStep ::
  "(nat list \<Rightarrow> nat list) \<Rightarrow> 'v setter \<Rightarrow> Option list \<Rightarrow> ref \<Rightarrow> Option list \<times> 'v store \<times> Err list
     \<Rightarrow> Option list \<times> 'v store \<times> Err list" where
  "groupStep tie vset os0 k s =
     (case (if members os0 k = [] then None else Some (members os0 k)) of
        None \<Rightarrow> s
      | Some idxs \<Rightarrow> SetDefaults_group tie vset idxs s)"

definition noValueErrs :: "Option list \<Rightarrow> Err list" where
  "noValueErrs os = map (\<lambda>opt. NoValueErr (Name opt)) (filter (\<lambda>opt. Value opt = None) os)"

text \<open>
  An option set is resolved when every group carries a source other than
  \<^verbatim>\<open>none\<close> and the options that share a value agree on it.
\<close>

definition everyGroupSourced :: "Option list \<Rightarrow> bool" where
  "everyGroupSourced os \<longleftrightarrow>
     (\<forall>i < length os. \<forall>a. Value (os ! i) = Some a \<longrightarrow>
        priorSource os (members os a) \<noteq> ValueSourceNone)"

definition aliasesAgree :: "Option list \<Rightarrow> bool" where
  "aliasesAgree os \<longleftrightarrow>
     (\<forall>i < length os. \<forall>j < length os.
        Value (os ! i) \<noteq> None \<and> Value (os ! i) = Value (os ! j)
          \<longrightarrow> ValueSource (os ! i) = ValueSource (os ! j))"

section \<open>Example inputs\<close>

text \<open>
  Three options bound to environment variables: two booleans whose variables hold
  malformed texts, and a string whose variable is only set under the prefixed name.
\<close>

definition envExampleOptions :: "Option list" where
  "envExampleOptions =
     [newOption\<lparr>Name := ''Verbose'', Env := ''VERBOSE'', Value := Some 0\<rparr>,
      newOption\<lparr>Name := ''Color'', Env := ''COLOR'', Value := Some 1\<rparr>,
      newOption\<lparr>Name := ''Token'', Env := ''TOKEN'', Value := Some 2\<rparr>]"

definition envExampleEnviron :: "EnvVar list" where
  "envExampleEnviron =
     [\<lparr>EnvVar_Name = ''VERBOSE'', EnvVar_Value = ''maybe''\<rparr>,
      \<lparr>EnvVar_Name = ''COLOR'', EnvVar_Value = ''blue''\<rparr>,
      \<lparr>EnvVar_Name = ''HOMEBREW_TOKEN'', EnvVar_Value = ''bar''\<rparr>]"

definition envExampleStore :: "Val store" where
  "envExampleStore = (\<lambda>a. if a = 2 then StringVal [] else BoolVal True)"

text \<open>
  Two options that share the value at reference 0, one bound to an environment variable
  and one with a default, and a third option with a value and a default of its own.
\<close>

definition aliasExampleOptions :: "Option list" where
  "aliasExampleOptions =
     [newOption\<lparr>Name := ''Token'', Env := ''TOKEN'', Value := Some 0\<rparr>,
      newOption\<lparr>Name := ''Old token'', Default := ''x'', Value := Some 0\<rparr>,
      newOption\<lparr>Name := ''Name'', Default := ''n'', Value := Some 1\<rparr>]"

definition aliasExampleEnviron :: "EnvVar list" where
  "aliasExampleEnviron = [\<lparr>EnvVar_Name = ''TOKEN'', EnvVar_Value = ''bar''\<rparr>]"

definition emptyStrings :: "Val store" where
  "emptyStrings = (\<lambda>a. StringVal [])"

text \<open>The same options after a resolution: every source is set and the aliases agree.\<close>

definition resolvedExampleOptions :: "Option list" where
  "resolvedExampleOptions =
     [newOption\<lparr>Name := ''Token'', Env := ''TOKEN'', Value := Some 0, ValueSource := ValueSourceEnv\<rparr>,
      newOption\<lparr>Name := ''Old token'', Default := ''x'', Value := Some 0,
        ValueSource := ValueSourceEnv\<rparr>,
      newOption\<lparr>Name := ''Name'', Default := ''n'', Value := Some 1,
        ValueSource := ValueSourceDefault\<rparr>]"





section \<open>Properties of ParseEnv\<close>

lemma ParseEnv_body_binding:
  "ParseEnv_body vset envs opt st =
     (case envBinding envs opt of
        None \<Rightarrow> Some (opt, st, [])
      | Some v \<Rightarrow>
          (case Value opt of
             None \<Rightarrow> None
           | Some a \<Rightarrow>
               Some (opt\<lparr>ValueSource := ValueSourceEnv\<rparr>, st(a := snd (vset (st a) v)),
                     (case fst (vset (st a) v) of None \<Rightarrow> [] | Some e \<Rightarrow> [ParseErr (Name opt) e]))))"
  by (auto simp: ParseEnv_body_def envBinding_def split: option.splits prod.splits)

lemma ParseEnv_loop_append:
  "ParseEnv_loop vset envs (xs @ ys) st merr =
     (case ParseEnv_loop vset envs xs st merr of
        None \<Rightarrow> None
      | Some (xs', st1, merr1) \<Rightarrow>
          (case ParseEnv_loop vset envs ys st1 merr1 of
             None \<Rightarrow> None
           | Some (ys', st2, merr2) \<Rightarrow> Some (xs' @ ys', st2, merr2)))"
proof (induction xs arbitrary: st merr)
  case Nil
  show ?case by (auto split: option.splits)
next
  case (Cons opt rest)
  show ?case
  proof (cases "ParseEnv_body vset envs opt st")
    case None
    then show ?thesis by simp
  next
    case (Some r)
    obtain opt' st' es where r: "r = (opt', st', es)" by (cases r)
    show ?thesis
      using Some r Cons.IH[of st' "merr @ es"]
      by (auto split: option.splits)
  qed
qed

lemma ParseEnv_loop_result:
  "envValued envs optSet \<Longrightarrow>
   ParseEnv_loop vset envs optSet st merr =
     Some (map (envMark envs) optSet, envStore vset envs optSet st,
           merr @ envParseFailures vset envs optSet st)"
proof (induction optSet arbitrary: st merr)
  case Nil
  show ?case by simp
next
  case (Cons opt rest)
  have rest: "envValued envs rest" using Cons.prems by (simp add: envValued_def)
  show ?case
  proof (cases "envBinding envs opt")
    case None
    then show ?thesis
      using Cons.IH[OF rest, of st merr] by (simp add: ParseEnv_body_binding envMark_def)
  next
    case (Some v)
    then obtain a where a: "Value opt = Some a"
      using Cons.prems by (auto simp: envValued_def)
    show ?thesis
      by (simp add: Some a ParseEnv_body_binding envMark_def Cons.IH[OF rest])
  qed
qed

lemma ParseEnv_result:
  "envValued (envMap vs) optSet \<Longrightarrow>
   ParseEnv vset vs optSet st =
     Some (map (envMark (envMap vs)) optSet, envStore vset (envMap vs) optSet st,
           envParseFailures vset (envMap vs) optSet st)"
  by (simp add: ParseEnv_def ParseEnv_loop_result)

lemma envValued_append:
  "envValued envs (xs @ ys) \<longleftrightarrow> envValued envs xs \<and> envValued envs ys"
  by (auto simp: envValued_def)


lemma envParseFailures_append:
  "envValued envs xs \<Longrightarrow>
   envParseFailures vset envs (xs @ ys) st =
     envParseFailures vset envs xs st @ envParseFailures vset envs ys (envStore vset envs xs st)"
proof (induction xs arbitrary: st)
  case Nil
  show ?case by simp
next
  case (Cons opt rest)
  have rest: "envValued envs rest" using Cons.prems by (simp add: envValued_def)
  show ?case
    using Cons.prems
    by (auto simp: envValued_def Cons.IH[OF rest] fun_upd_def split: option.splits)
qed

lemma envFailureAt_snoc:
  "i < length xs \<Longrightarrow> envFailureAt vset envs (xs @ ys) st i = envFailureAt vset envs xs st i"
  by (auto simp: envFailureAt_def nth_append split: option.splits)

lemma envParseFailures_concat:
  "envValued envs optSet \<Longrightarrow>
   envParseFailures vset envs optSet st =
     concat (map (envFailureAt vset envs optSet st) [0..<length optSet])"
proof (induction optSet rule: rev_induct)
  case Nil
  show ?case by simp
next
  case (snoc x xs)
  have xs: "envValued envs xs" and x: "envValued envs [x]"
    using snoc.prems by (simp_all add: envValued_append)
  have last: "envParseFailures vset envs [x] (envStore vset envs xs st)
                = envFailureAt vset envs (xs @ [x]) st (length xs)"
    using x by (auto simp: envFailureAt_def envValued_def split: option.splits)
  have eq: "map (envFailureAt vset envs (xs @ [x]) st) [0..<length xs]
          = map (envFailureAt vset envs xs st) [0..<length xs]"
    by (rule map_cong) (simp_all add: envFailureAt_snoc)
  have "envParseFailures vset envs (xs @ [x]) st
          = envParseFailures vset envs xs st
            @ envParseFailures vset envs [x] (envStore vset envs xs st)"
    by (rule envParseFailures_append[OF xs])
  also have "\<dots> = concat (map (envFailureAt vset envs xs st) [0..<length xs])
                  @ envFailureAt vset envs (xs @ [x]) st (length xs)"
    by (simp only: snoc.IH[OF xs] last)
  also have "\<dots> = concat (map (envFailureAt vset envs (xs @ [x]) st) [0..<length (xs @ [x])])"
    by (simp add: eq)
  finally show ?case .
qed

lemma envExample_valued: "envValued (envMap envExampleEnviron) envExampleOptions"
  by (simp add: envValued_def envExampleOptions_def newOption_def)

lemma envExample_bindings:
  "map (envBinding (envMap envExampleEnviron)) envExampleOptions = [Some ''maybe'', Some ''blue'', Some ''bar'']"
  by (simp add: envExampleOptions_def envExampleEnviron_def envMap_def envBinding_def newOption_def)

section \<open>Properties of SetDefaults\<close>

lemma set_insertLeft: "set (insertLeft cmp x ys) = insert x (set ys)"
  by (induction ys) auto

lemma set_fold_insertLeft: "set (fold (insertLeft cmp) xs acc) = set xs \<union> set acc"
  by (induction xs arbitrary: acc) (auto simp: set_insertLeft)

lemma set_insertionSortCmpFunc: "set (insertionSortCmpFunc cmp xs) = set xs"
  by (simp add: insertionSortCmpFunc_def set_fold_insertLeft)

lemma set_SortFunc: "set (SortFunc tie cmp xs) = set xs"
proof (cases "mset (tie xs) = mset xs")
  case True
  then have "set (tie xs) = set xs" by (rule mset_eq_setD)
  then show ?thesis by (simp add: SortFunc_def set_insertionSortCmpFunc)
next
  case False
  then show ?thesis by (simp add: SortFunc_def set_insertionSortCmpFunc)
qed

lemma insertLeft_sorted:
  assumes "\<forall>x y. cmp x y < 0 \<longleftrightarrow> key x < (key y :: nat)"
    and "sorted (map key (rev acc))"
  shows "sorted (map key (rev (insertLeft cmp x acc)))"
  using assms(2)
proof (induction acc)
  case Nil
  show ?case by simp
next
  case (Cons y ys)
  show ?case
  proof (cases "cmp x y < 0")
    case True
    then have "key x < key y" using assms(1) by simp
    moreover have "sorted (map key (rev ys))" and "\<forall>z \<in> set ys. key z \<le> key y"
      using Cons.prems by (auto simp: sorted_append)
    ultimately show ?thesis
      using True Cons.IH by (auto simp: sorted_append set_insertLeft)
  next
    case False
    then have "key y \<le> key x" using assms(1) by (simp add: not_less)
    then show ?thesis
      using False Cons.prems by (auto simp: sorted_append)
  qed
qed

lemma fold_insertLeft_sorted:
  assumes "\<forall>x y. cmp x y < 0 \<longleftrightarrow> key x < (key y :: nat)"
    and "sorted (map key (rev acc))"
  shows "sorted (map key (rev (fold (insertLeft cmp) xs acc)))"
  using assms(2)
  by (induction xs arbitrary: acc) (simp_all add: insertLeft_sorted[OF assms(1)])

lemma insertionSortCmpFunc_sorted:
  assumes "\<forall>x y. cmp x y < 0 \<longleftrightarrow> key x < (key y :: nat)"
  shows "sorted (map key (insertionSortCmpFunc cmp xs))"
  unfolding insertionSortCmpFunc_def by (rule fold_insertLeft_sorted[OF assms]) simp

lemma SortFunc_sorted:
  assumes "\<forall>x y. cmp x y < 0 \<longleftrightarrow> key x < (key y :: nat)"
  shows "sorted (map key (SortFunc tie cmp xs))"
  by (simp add: SortFunc_def insertionSortCmpFunc_sorted[OF assms])

lemma SortFunc_head_least:
  assumes "\<forall>x y. cmp x y < 0 \<longleftrightarrow> key x < (key y :: nat)"
    and "SortFunc tie cmp xs = first # others"
  shows "first \<in> set xs" and "set (first # others) = set xs" and "\<forall>y \<in> set xs. key first \<le> key y"
proof -
  show s: "set (first # others) = set xs"
    using set_SortFunc[of tie cmp xs] assms(2) by simp
  then show "first \<in> set xs" by auto
  have "sorted (map key (first # others))"
    using SortFunc_sorted[OF assms(1), of tie xs] assms(2) by simp
  then have "\<forall>y \<in> set (first # others). key first \<le> key y" by auto
  then show "\<forall>y \<in> set xs. key first \<le> key y" unfolding s[symmetric] .
qed

lemma SortFunc_Nil: "SortFunc tie cmp xs = [] \<longleftrightarrow> xs = []"
  using set_SortFunc[of tie cmp xs] by (metis set_empty)

lemma priority_simps:
  "priority ValueSourceFlag = 0" "priority ValueSourceEnv = 1" "priority ValueSourceYAML = 2"
  "priority ValueSourceDefault = 3" "priority ValueSourceNone = 4"
  by (simp_all add: priority_def valueSourcePriority_def)

lemma Index_priority: "Index valueSourcePriority s = int (priority s)"
  by (cases s) (simp_all add: priority_def valueSourcePriority_def)

lemma priority_inj: "priority s = priority t \<longleftrightarrow> s = t"
  by (cases s; cases t) (simp_all add: priority_simps)

lemma priority_le_4: "priority s \<le> 4"
  by (cases s) (simp_all add: priority_simps)

lemma sortOption_key:
  "sortOptionByValueSourcePriorityOrDefault a b < 0 \<longleftrightarrow> sourceKey a < sourceKey b"
proof (cases "ValueSource a = ValueSource b")
  case True
  then show ?thesis
    by (auto simp: sortOptionByValueSourcePriorityOrDefault_def sourceKey_def)
next
  case False
  then have "priority (ValueSource a) \<noteq> priority (ValueSource b)"
    by (simp add: priority_inj)
  then show ?thesis
    using False
    by (auto simp: sortOptionByValueSourcePriorityOrDefault_def sourceKey_def Index_priority)
qed

lemma conflicting_iff: "conflicting ds \<longleftrightarrow> (\<exists>d1 \<in> set ds. \<exists>d2 \<in> set ds. d1 \<noteq> d2)"
proof (cases ds)
  case Nil
  then show ?thesis by (simp add: conflicting_def)
next
  case (Cons d rest)
  then show ?thesis by (auto simp: conflicting_def)
qed

lemma length_setSource: "length (setSource s is os) = length os"
  unfolding setSource_def by (induction "is" arbitrary: os) simp_all

lemma nth_setSource:
  "i < length os \<Longrightarrow>
   setSource s is os ! i = (if i \<in> set is then (os ! i)\<lparr>ValueSource := s\<rparr> else os ! i)"
  unfolding setSource_def
proof (induction "is" arbitrary: os)
  case Nil
  show ?case by simp
next
  case (Cons j js)
  let ?os1 = "os[j := (os ! j)\<lparr>ValueSource := s\<rparr>]"
  have len: "i < length ?os1" using Cons.prems by simp
  show ?case
    using Cons.IH[OF len] Cons.prems
    by (cases "i = j") (auto simp: nth_list_update)
qed

lemma sourceKey_priority:
  "sourceKey a \<le> sourceKey b \<Longrightarrow> priority (ValueSource a) \<le> priority (ValueSource b)"
  by (auto simp: sourceKey_def split: if_splits)

lemma first_is_priorSource:
  assumes "SortFunc tie (\<lambda>i j. sortOptionByValueSourcePriorityOrDefault (os ! i) (os ! j)) idxs
             = first # others"
  shows "ValueSource (os ! first) = priorSource os idxs"
proof -
  have key: "\<forall>i j. sortOptionByValueSourcePriorityOrDefault (os ! i) (os ! j) < 0
                \<longleftrightarrow> sourceKey (os ! i) < sourceKey (os ! j)"
    by (simp add: sortOption_key)
  have mem: "first \<in> set idxs"
    and least: "\<forall>y \<in> set idxs. sourceKey (os ! first) \<le> sourceKey (os ! y)"
    using SortFunc_head_least[OF key assms] by blast+
  have le: "\<forall>y \<in> set idxs. priority (ValueSource (os ! first)) \<le> priority (ValueSource (os ! y))"
    using least sourceKey_priority by blast
  have occ: "ValueSource (os ! first) \<in> (\<lambda>i. ValueSource (os ! i)) ` set idxs"
    using mem by blast
  show ?thesis
  proof (cases "ValueSource (os ! first)")
    case ValueSourceNone
    then have "\<forall>y \<in> set idxs. ValueSource (os ! y) = ValueSourceNone"
      using le priority_le_4 by (metis priority_simps(5) priority_inj le_antisym)
    then show ?thesis
      using ValueSourceNone occ
      by (auto simp: priorSource_def valueSourcePriority_def)
  next
    case ValueSourceFlag
    then show ?thesis
      using occ by (auto simp: priorSource_def valueSourcePriority_def)
  next
    case ValueSourceEnv
    then have "ValueSourceFlag \<notin> (\<lambda>i. ValueSource (os ! i)) ` set idxs"
      using le by (auto simp: priority_simps)
    then show ?thesis
      using ValueSourceEnv occ by (auto simp: priorSource_def valueSourcePriority_def)
  next
    case ValueSourceYAML
    then have "ValueSourceFlag \<notin> (\<lambda>i. ValueSource (os ! i)) ` set idxs"
      and "ValueSourceEnv \<notin> (\<lambda>i. ValueSource (os ! i)) ` set idxs"
      using le by (auto simp: priority_simps)
    then show ?thesis
      using ValueSourceYAML occ by (auto simp: priorSource_def valueSourcePriority_def)
  next
    case ValueSourceDefault
    then have "ValueSourceFlag \<notin> (\<lambda>i. ValueSource (os ! i)) ` set idxs"
      and "ValueSourceEnv \<notin> (\<lambda>i. ValueSource (os ! i)) ` set idxs"
      and "ValueSourceYAML \<notin> (\<lambda>i. ValueSource (os ! i)) ` set idxs"
      using le by (auto simp: priority_simps)
    then show ?thesis
      using ValueSourceDefault occ by (auto simp: priorSource_def valueSourcePriority_def)
  qed
qed

lemma priorSource_None_iff:
  "priorSource os idxs = ValueSourceNone \<longleftrightarrow> (\<forall>i \<in> set idxs. ValueSource (os ! i) = ValueSourceNone)"
proof
  assume "\<forall>i \<in> set idxs. ValueSource (os ! i) = ValueSourceNone"
  then show "priorSource os idxs = ValueSourceNone"
    by (auto simp: priorSource_def valueSourcePriority_def)
next
  assume p: "priorSource os idxs = ValueSourceNone"
  show "\<forall>i \<in> set idxs. ValueSource (os ! i) = ValueSourceNone"
  proof
    fix i assume i: "i \<in> set idxs"
    then have occ: "ValueSource (os ! i) \<in> (\<lambda>i. ValueSource (os ! i)) ` set idxs" by blast
    show "ValueSource (os ! i) = ValueSourceNone"
      using p occ
      by (cases "ValueSource (os ! i)")
         (auto simp: priorSource_def valueSourcePriority_def split: list.splits if_splits)
  qed
qed

lemma defaultScan_Some:
  "\<exists>j' es. defaultScan os is (Some j) merr = (Some j', merr @ es)
     \<and> Default (os ! j') = Default (os ! j)
     \<and> (j' = j \<or> j' \<in> set is)
     \<and> (es = [] \<longleftrightarrow> (\<forall>i \<in> set is. Default (os ! i) = [] \<or> Default (os ! i) = Default (os ! j)))
     \<and> (\<forall>e \<in> set es. isMultipleDefaults e)"
proof (induction "is" arbitrary: j merr)
  case Nil
  show ?case by simp
next
  case (Cons i rest)
  show ?case
  proof (cases "Default (os ! i) = []")
    case True
    then show ?thesis using Cons.IH[of j merr] by auto
  next
    case False
    show ?thesis
    proof (cases "Default (os ! j) \<noteq> Default (os ! i)")
      case True
      let ?e = "MultipleDefaultsErr (Name (os ! i)) (Default (os ! i)) (Default (os ! j)) (Name (os ! j))"
      obtain j' es where h: "defaultScan os rest (Some j) (merr @ [?e]) = (Some j', (merr @ [?e]) @ es)"
        "Default (os ! j') = Default (os ! j)" "j' = j \<or> j' \<in> set rest"
        "\<forall>e \<in> set es. isMultipleDefaults e"
        using Cons.IH[of j "merr @ [?e]"] by blast
      have "defaultScan os (i # rest) (Some j) merr = (Some j', merr @ (?e # es))"
        using False True h(1) by simp
      moreover have "?e # es \<noteq> []" by simp
      moreover have "\<not> (\<forall>k \<in> set (i # rest). Default (os ! k) = [] \<or> Default (os ! k) = Default (os ! j))"
        using False True by auto
      ultimately show ?thesis
        using h(2,3,4) by (intro exI[of _ j'] exI[of _ "?e # es"]) auto
    next
      case same: False
      obtain j' es where h: "defaultScan os rest (Some i) merr = (Some j', merr @ es)"
        "Default (os ! j') = Default (os ! i)" "j' = i \<or> j' \<in> set rest"
        "es = [] \<longleftrightarrow> (\<forall>k \<in> set rest. Default (os ! k) = [] \<or> Default (os ! k) = Default (os ! i))"
        "\<forall>e \<in> set es. isMultipleDefaults e"
        using Cons.IH[of i merr] by blast
      have "defaultScan os (i # rest) (Some j) merr = (Some j', merr @ es)"
        using False same h(1) by simp
      then show ?thesis
        using h(2,3,4,5) same by (intro exI[of _ j'] exI[of _ es]) auto
    qed
  qed
qed

lemma defaultScan_None:
  "\<exists>r es. defaultScan os is None merr = (r, merr @ es)
     \<and> (r = None \<longleftrightarrow> groupDefaults os is = [])
     \<and> (\<forall>d. r = Some d \<longrightarrow> d \<in> set is \<and> Default (os ! d) \<in> set (groupDefaults os is))
     \<and> (es = [] \<longleftrightarrow> \<not> conflicting (groupDefaults os is))
     \<and> (\<forall>e \<in> set es. isMultipleDefaults e)"
proof (induction "is" arbitrary: merr)
  case Nil
  show ?case by (simp add: groupDefaults_def conflicting_def)
next
  case (Cons i rest)
  show ?case
  proof (cases "Default (os ! i) = []")
    case True
    then have g: "groupDefaults os (i # rest) = groupDefaults os rest"
      by (simp add: groupDefaults_def)
    show ?thesis
      using True Cons.IH[of merr] unfolding g by auto
  next
    case False
    then have g: "groupDefaults os (i # rest) = Default (os ! i) # groupDefaults os rest"
      by (simp add: groupDefaults_def)
    obtain j' es where h: "defaultScan os rest (Some i) merr = (Some j', merr @ es)"
      "Default (os ! j') = Default (os ! i)" "j' = i \<or> j' \<in> set rest"
      "es = [] \<longleftrightarrow> (\<forall>k \<in> set rest. Default (os ! k) = [] \<or> Default (os ! k) = Default (os ! i))"
      "\<forall>e \<in> set es. isMultipleDefaults e"
      using defaultScan_Some[of os rest i merr] by blast
    have c: "conflicting (groupDefaults os (i # rest))
               \<longleftrightarrow> \<not> (\<forall>k \<in> set rest. Default (os ! k) = [] \<or> Default (os ! k) = Default (os ! i))"
      unfolding g by (auto simp: conflicting_def groupDefaults_def)
    have "defaultScan os (i # rest) None merr = (Some j', merr @ es)"
      using False h(1) by simp
    then show ?thesis
      using h(2,3,4,5) c g by (intro exI[of _ "Some j'"] exI[of _ es]) auto
  qed
qed

lemma groupDefaults_set_cong:
  "set l1 = set l2 \<Longrightarrow> set (groupDefaults os l1) = set (groupDefaults os l2)"
  by (auto simp: groupDefaults_def)

lemma groupDefaults_Nil_cong:
  "set l1 = set l2 \<Longrightarrow> groupDefaults os l1 = [] \<longleftrightarrow> groupDefaults os l2 = []"
  using groupDefaults_set_cong[of l1 l2 os] by (metis set_empty)

lemma conflicting_set_cong:
  "set ds1 = set ds2 \<Longrightarrow> conflicting ds1 \<longleftrightarrow> conflicting ds2"
  by (simp add: conflicting_iff)

lemma source_update_same: "ValueSource r = s \<Longrightarrow> r\<lparr>ValueSource := s\<rparr> = r"
  by auto

lemma SetDefaults_group_result:
  assumes ne: "idxs \<noteq> []"
    and grp: "\<forall>i \<in> set idxs. i < length os \<and> Value (os ! i) = Some a"
  shows "\<exists>os' st' es. SetDefaults_group tie vset idxs (os, st, merr) = (os', st', merr @ es)
     \<and> length os' = length os
     \<and> (\<forall>i < length os. os' ! i =
           (if i \<in> set idxs then (os ! i)\<lparr>ValueSource := finalSource os idxs\<rparr> else os ! i))
     \<and> (\<forall>b. b \<noteq> a \<longrightarrow> st' b = st b)
     \<and> (priorSource os idxs \<noteq> ValueSourceNone \<or> groupDefaults os idxs = [] \<longrightarrow> st' = st \<and> es = [])
     \<and> (priorSource os idxs = ValueSourceNone \<and> groupDefaults os idxs \<noteq> [] \<longrightarrow>
          (\<exists>d \<in> set (groupDefaults os idxs). \<exists>cs n.
              st' = st(a := snd (vset (st a) d))
            \<and> es = cs @ (case fst (vset (st a) d) of None \<Rightarrow> [] | Some e \<Rightarrow> [ParseErr n e])
            \<and> (cs = [] \<longleftrightarrow> \<not> conflicting (groupDefaults os idxs))
            \<and> (\<forall>e \<in> set cs. isMultipleDefaults e)))"
proof -
  let ?cmp = "\<lambda>i j. sortOptionByValueSourcePriorityOrDefault (os ! i) (os ! j)"
  obtain first others where sorted: "SortFunc tie ?cmp idxs = first # others"
    using ne SortFunc_Nil[of tie ?cmp idxs] by (cases "SortFunc tie ?cmp idxs") auto
  have sset: "set (first # others) = set idxs"
    using set_SortFunc[of tie ?cmp idxs] sorted by simp
  have first: "ValueSource (os ! first) = priorSource os idxs"
    by (rule first_is_priorSource[OF sorted])
  show ?thesis
  proof (cases "priorSource os idxs = ValueSourceNone")
    case False
    let ?os' = "setSource (priorSource os idxs) others os"
    have run: "SetDefaults_group tie vset idxs (os, st, merr) = (?os', st, merr @ [])"
      using sorted first False by (simp add: SetDefaults_group_def)
    have fs: "finalSource os idxs = priorSource os idxs"
      using False by (simp add: finalSource_def)
    have nth: "\<forall>i < length os. ?os' ! i =
                 (if i \<in> set idxs then (os ! i)\<lparr>ValueSource := finalSource os idxs\<rparr> else os ! i)"
    proof (intro allI impI)
      fix i assume i: "i < length os"
      show "?os' ! i = (if i \<in> set idxs then (os ! i)\<lparr>ValueSource := finalSource os idxs\<rparr> else os ! i)"
      proof (cases "i \<in> set others")
        case True
        then show ?thesis using sset i by (auto simp: nth_setSource fs)
      next
        case notin: False
        show ?thesis
        proof (cases "i = first")
          case True
          then show ?thesis
            using notin sset i first by (auto simp: nth_setSource fs source_update_same)
        next
          case False
          then have "i \<notin> set idxs" using notin sset by auto
          then show ?thesis using notin i by (simp add: nth_setSource)
        qed
      qed
    qed
    show ?thesis
      using run nth False
      by (intro exI[of _ ?os'] exI[of _ st] exI[of _ "[]"]) (simp add: length_setSource)
  next
    case True
    then have allNone: "\<forall>i \<in> set idxs. ValueSource (os ! i) = ValueSourceNone"
      by (simp add: priorSource_None_iff)
    have firstNone: "ValueSource (os ! first) = ValueSourceNone"
      using first True by simp
    obtain r es where scan: "defaultScan os (first # others) None merr = (r, merr @ es)"
      and rNone: "r = None \<longleftrightarrow> groupDefaults os (first # others) = []"
      and rSome: "\<forall>d. r = Some d \<longrightarrow> d \<in> set (first # others)
                        \<and> Default (os ! d) \<in> set (groupDefaults os (first # others))"
      and esNil: "es = [] \<longleftrightarrow> \<not> conflicting (groupDefaults os (first # others))"
      and esAll: "\<forall>e \<in> set es. isMultipleDefaults e"
      using defaultScan_None[of os "first # others" merr] by blast
    have gset: "set (groupDefaults os (first # others)) = set (groupDefaults os idxs)"
      by (rule groupDefaults_set_cong[OF sset])
    have gnil: "groupDefaults os (first # others) = [] \<longleftrightarrow> groupDefaults os idxs = []"
      by (rule groupDefaults_Nil_cong[OF sset])
    have gconf: "conflicting (groupDefaults os (first # others)) \<longleftrightarrow> conflicting (groupDefaults os idxs)"
      by (rule conflicting_set_cong[OF gset])
    show ?thesis
    proof (cases r)
      case None
      then have nodef: "groupDefaults os idxs = []" using rNone gnil by simp
      then have "\<not> conflicting (groupDefaults os idxs)" by (simp add: conflicting_def)
      then have es: "es = []" using esNil gconf by simp
      have run: "SetDefaults_group tie vset idxs (os, st, merr) = (os, st, merr @ [])"
        using sorted firstNone scan None es by (simp add: SetDefaults_group_def)
      have fs: "finalSource os idxs = ValueSourceNone"
        using True nodef by (simp add: finalSource_def)
      have nth: "\<forall>i < length os. os ! i =
                 (if i \<in> set idxs then (os ! i)\<lparr>ValueSource := finalSource os idxs\<rparr> else os ! i)"
        using allNone by (auto simp: fs source_update_same)
      show ?thesis
        using run nth nodef
        by (intro exI[of _ os] exI[of _ st] exI[of _ "[]"]) simp
    next
      case (Some d)
      then have dmem: "d \<in> set idxs" and ddef: "Default (os ! d) \<in> set (groupDefaults os idxs)"
        using rSome sset gset by auto
      then have dval: "Value (os ! d) = Some a" using grp by simp
      have hasdef: "groupDefaults os idxs \<noteq> []" using ddef by auto
      have fs: "finalSource os idxs = ValueSourceDefault"
        using True hasdef by (simp add: finalSource_def)
      let ?os' = "setSource ValueSourceDefault (first # others) os"
      let ?st' = "st(a := snd (vset (st a) (Default (os ! d))))"
      let ?ps = "(case fst (vset (st a) (Default (os ! d))) of
                    None \<Rightarrow> [] | Some e \<Rightarrow> [ParseErr (Name (os ! d)) e])"
      have run: "SetDefaults_group tie vset idxs (os, st, merr) = (?os', ?st', merr @ (es @ ?ps))"
        using sorted firstNone scan Some dval
        by (cases "vset (st a) (Default (os ! d))")
           (auto simp: SetDefaults_group_def split: option.splits)
      have nth: "\<forall>i < length os. ?os' ! i =
                 (if i \<in> set idxs then (os ! i)\<lparr>ValueSource := finalSource os idxs\<rparr> else os ! i)"
        using sset by (simp add: nth_setSource fs)
      have store: "\<forall>b. b \<noteq> a \<longrightarrow> ?st' b = st b" by simp
      have tail: "\<exists>d \<in> set (groupDefaults os idxs). \<exists>cs n.
              ?st' = st(a := snd (vset (st a) d))
            \<and> es @ ?ps = cs @ (case fst (vset (st a) d) of None \<Rightarrow> [] | Some e \<Rightarrow> [ParseErr n e])
            \<and> (cs = [] \<longleftrightarrow> \<not> conflicting (groupDefaults os idxs))
            \<and> (\<forall>e \<in> set cs. isMultipleDefaults e)"
        using ddef esNil esAll gconf
        by (intro bexI[of _ "Default (os ! d)"] exI[of _ es] exI[of _ "Name (os ! d)"]) simp_all
      show ?thesis
        using run nth store tail True hasdef
        by (intro exI[of _ ?os'] exI[of _ ?st'] exI[of _ "es @ ?ps"])
           (simp add: length_setSource)
    qed
  qed
qed

lemma groupByValue_loop_snoc:
  "groupByValue_loop (xs @ [x]) i g merr =
     (case groupByValue_loop xs i g merr of
        (g', merr') \<Rightarrow>
          (case Value x of
             None \<Rightarrow> (g', merr' @ [NoValueErr (Name x)])
           | Some a \<Rightarrow>
               (g'(a \<mapsto> (case g' a of None \<Rightarrow> [] | Some l \<Rightarrow> l) @ [i + length xs]), merr')))"
  by (induction xs arbitrary: i g merr) (auto split: option.splits prod.splits)

lemma members_snoc:
  "members (xs @ [x]) a = members xs a @ (if Value x = Some a then [length xs] else [])"
proof -
  have "filter (\<lambda>i. Value ((xs @ [x]) ! i) = Some a) [0..<length xs]
          = filter (\<lambda>i. Value (xs ! i) = Some a) [0..<length xs]"
    by (rule filter_cong) (simp_all add: nth_append)
  then show ?thesis by (simp add: members_def)
qed

lemma set_members: "set (members os a) = {i. i < length os \<and> Value (os ! i) = Some a}"
  by (auto simp: members_def)

lemma members_cong:
  "length os = length os0 \<Longrightarrow> \<forall>i < length os0. Value (os ! i) = Value (os0 ! i)
   \<Longrightarrow> members os a = members os0 a"
  unfolding members_def by (auto intro: filter_cong)

lemma groupByValue_result:
  "groupByValue_loop os 0 Map.empty [] =
     (\<lambda>a. if members os a = [] then None else Some (members os a),
      map (\<lambda>opt. NoValueErr (Name opt)) (filter (\<lambda>opt. Value opt = None) os))"
proof (induction os rule: rev_induct)
  case Nil
  show ?case by (simp add: members_def)
next
  case (snoc x xs)
  show ?case
  proof (cases "Value x")
    case None
    then show ?thesis
      by (auto simp: groupByValue_loop_snoc snoc.IH members_snoc fun_eq_iff)
  next
    case (Some a)
    have "(\<lambda>b. if members xs b = [] then None else Some (members xs b))
             (a \<mapsto> (case (if members xs a = [] then None else Some (members xs a)) of
                       None \<Rightarrow> [] | Some l \<Rightarrow> l) @ [length xs])
          = (\<lambda>b. if members (xs @ [x]) b = [] then None else Some (members (xs @ [x]) b))"
      using Some by (auto simp: members_snoc fun_eq_iff)
    then show ?thesis
      using Some by (simp add: groupByValue_loop_snoc snoc.IH)
  qed
qed

lemma priorSource_cong:
  assumes "\<forall>i \<in> set idxs. os1 ! i = os ! i"
  shows "priorSource os1 idxs = priorSource os idxs"
proof -
  have "map (\<lambda>i. ValueSource (os1 ! i)) idxs = map (\<lambda>i. ValueSource (os ! i)) idxs"
    using assms by simp
  then show ?thesis by (simp add: priorSource_def)
qed

lemma groupDefaults_cong:
  assumes "\<forall>i \<in> set idxs. os1 ! i = os ! i"
  shows "groupDefaults os1 idxs = groupDefaults os idxs"
proof -
  have "map (\<lambda>i. Default (os1 ! i)) idxs = map (\<lambda>i. Default (os ! i)) idxs"
    using assms by simp
  then show ?thesis by (simp only: groupDefaults_def)
qed

lemma finalSource_cong:
  assumes "\<forall>i \<in> set idxs. os1 ! i = os ! i"
  shows "finalSource os1 idxs = finalSource os idxs"
  by (simp only: finalSource_def priorSource_cong[OF assms] groupDefaults_cong[OF assms])

lemma groupOutcome_cong:
  assumes "\<forall>i \<in> set idxs. os1 ! i = os ! i" and "st1 a = st a"
  shows "groupOutcome vset os1 st1 idxs a es x \<longleftrightarrow> groupOutcome vset os st idxs a es x"
  by (simp only: groupOutcome_def priorSource_cong[OF assms(1)] groupDefaults_cong[OF assms(1)]
      assms(2))

lemma groupStep_result:
  assumes len: "length os = length os0"
    and vals: "\<forall>i < length os0. Value (os ! i) = Value (os0 ! i)"
  shows "\<exists>os' st' es. groupStep tie vset os0 k (os, st, merr) = (os', st', merr @ es)
     \<and> length os' = length os
     \<and> (\<forall>i < length os. os' ! i =
           (if Value (os ! i) = Some k then (os ! i)\<lparr>ValueSource := finalSource os (members os0 k)\<rparr>
            else os ! i))
     \<and> (\<forall>b. b \<noteq> k \<longrightarrow> st' b = st b)
     \<and> groupOutcome vset os st (members os0 k) k es (st' k)"
proof (cases "members os0 k = []")
  case True
  then have no: "\<forall>i < length os. Value (os ! i) \<noteq> Some k"
    using set_members[of os0 k] len vals by auto
  have "groupOutcome vset os st (members os0 k) k [] (st k)"
    using True by (simp add: groupOutcome_def groupDefaults_def)
  then show ?thesis
    using True no by (intro exI[of _ os] exI[of _ st] exI[of _ "[]"]) (simp add: groupStep_def)
next
  case False
  have mem: "\<forall>i. i \<in> set (members os0 k) \<longleftrightarrow> i < length os \<and> Value (os ! i) = Some k"
    using set_members[of os0 k] len vals by auto
  then have grp: "\<forall>i \<in> set (members os0 k). i < length os \<and> Value (os ! i) = Some k"
    by simp
  obtain os' st' es where r:
      "SetDefaults_group tie vset (members os0 k) (os, st, merr) = (os', st', merr @ es)"
      "length os' = length os"
      "\<forall>i < length os. os' ! i =
           (if i \<in> set (members os0 k)
            then (os ! i)\<lparr>ValueSource := finalSource os (members os0 k)\<rparr> else os ! i)"
      "\<forall>b. b \<noteq> k \<longrightarrow> st' b = st b"
      "priorSource os (members os0 k) \<noteq> ValueSourceNone \<or> groupDefaults os (members os0 k) = []
         \<longrightarrow> st' = st \<and> es = []"
      "priorSource os (members os0 k) = ValueSourceNone \<and> groupDefaults os (members os0 k) \<noteq> [] \<longrightarrow>
          (\<exists>d \<in> set (groupDefaults os (members os0 k)). \<exists>cs n.
              st' = st(k := snd (vset (st k) d))
            \<and> es = cs @ (case fst (vset (st k) d) of None \<Rightarrow> [] | Some e \<Rightarrow> [ParseErr n e])
            \<and> (cs = [] \<longleftrightarrow> \<not> conflicting (groupDefaults os (members os0 k)))
            \<and> (\<forall>e \<in> set cs. isMultipleDefaults e))"
    using SetDefaults_group_result[OF False grp, of tie vset st merr] by blast
  have out: "groupOutcome vset os st (members os0 k) k es (st' k)"
    unfolding groupOutcome_def
  proof (intro conjI impI)
    assume "priorSource os (members os0 k) \<noteq> ValueSourceNone \<or> groupDefaults os (members os0 k) = []"
    then show "st' k = st k" and "es = []" using r(5) by auto
  next
    assume "priorSource os (members os0 k) = ValueSourceNone \<and> groupDefaults os (members os0 k) \<noteq> []"
    then obtain d cs n where d: "d \<in> set (groupDefaults os (members os0 k))"
      "st' = st(k := snd (vset (st k) d))"
      "es = cs @ (case fst (vset (st k) d) of None \<Rightarrow> [] | Some e \<Rightarrow> [ParseErr n e])"
      "cs = [] \<longleftrightarrow> \<not> conflicting (groupDefaults os (members os0 k))"
      "\<forall>e \<in> set cs. isMultipleDefaults e"
      using r(6) by blast
    have "st' k = snd (vset (st k) d)" using d(2) by simp
    then show "\<exists>d \<in> set (groupDefaults os (members os0 k)). \<exists>cs n.
            st' k = snd (vset (st k) d)
          \<and> es = cs @ (case fst (vset (st k) d) of None \<Rightarrow> [] | Some e \<Rightarrow> [ParseErr n e])
          \<and> (cs = [] \<longleftrightarrow> \<not> conflicting (groupDefaults os (members os0 k)))
          \<and> (\<forall>e \<in> set cs. isMultipleDefaults e)"
      using d(1,3,4,5) by blast
  qed
  have nth: "\<forall>i < length os. os' ! i =
           (if Value (os ! i) = Some k then (os ! i)\<lparr>ValueSource := finalSource os (members os0 k)\<rparr>
            else os ! i)"
    using r(3) mem by simp
  show ?thesis
    using r(1,2,4) nth out False
    by (intro exI[of _ os'] exI[of _ st'] exI[of _ es]) (simp add: groupStep_def)
qed

lemma fold_groupStep:
  assumes "distinct ks"
    and "length os = length os0"
    and "\<forall>i < length os0. Value (os ! i) = Value (os0 ! i)"
  shows "\<exists>os' st' ess.
       fold (groupStep tie vset os0) ks (os, st, merr) = (os', st', merr @ concat ess)
     \<and> length os' = length os
     \<and> (\<forall>i < length os. os' ! i =
           (case Value (os ! i) of
              None \<Rightarrow> os ! i
            | Some a \<Rightarrow>
                if a \<in> set ks then (os ! i)\<lparr>ValueSource := finalSource os (members os0 a)\<rparr>
                else os ! i))
     \<and> (\<forall>a. a \<notin> set ks \<longrightarrow> st' a = st a)
     \<and> length ess = length ks
     \<and> (\<forall>j < length ks.
           groupOutcome vset os st (members os0 (ks ! j)) (ks ! j) (ess ! j) (st' (ks ! j)))"
  using assms
proof (induction ks arbitrary: os st merr)
  case Nil
  show ?case
    by (intro exI[of _ os] exI[of _ st] exI[of _ "[]"]) (auto split: option.splits)
next
  case (Cons k ks)
  have len: "length os = length os0" and vals: "\<forall>i < length os0. Value (os ! i) = Value (os0 ! i)"
    and knot: "k \<notin> set ks" and dist: "distinct ks"
    using Cons.prems by auto
  obtain os1 st1 es where s1:
      "groupStep tie vset os0 k (os, st, merr) = (os1, st1, merr @ es)"
      "length os1 = length os"
      "\<forall>i < length os. os1 ! i =
           (if Value (os ! i) = Some k then (os ! i)\<lparr>ValueSource := finalSource os (members os0 k)\<rparr>
            else os ! i)"
      "\<forall>b. b \<noteq> k \<longrightarrow> st1 b = st b"
      "groupOutcome vset os st (members os0 k) k es (st1 k)"
    using groupStep_result[OF len vals, of tie vset k st merr] by blast
  have len1: "length os1 = length os0" using s1(2) len by simp
  have vals1: "\<forall>i < length os0. Value (os1 ! i) = Value (os0 ! i)"
    using s1(3) vals len by auto
  have vals01: "\<forall>i < length os. Value (os1 ! i) = Value (os ! i)"
    using s1(3) by auto
  obtain os' st' ess where s2:
      "fold (groupStep tie vset os0) ks (os1, st1, merr @ es) = (os', st', (merr @ es) @ concat ess)"
      "length os' = length os1"
      "\<forall>i < length os1. os' ! i =
           (case Value (os1 ! i) of
              None \<Rightarrow> os1 ! i
            | Some a \<Rightarrow>
                if a \<in> set ks then (os1 ! i)\<lparr>ValueSource := finalSource os1 (members os0 a)\<rparr>
                else os1 ! i)"
      "\<forall>a. a \<notin> set ks \<longrightarrow> st' a = st1 a"
      "length ess = length ks"
      "\<forall>j < length ks.
           groupOutcome vset os1 st1 (members os0 (ks ! j)) (ks ! j) (ess ! j) (st' (ks ! j))"
    using Cons.IH[OF dist len1 vals1, of st1 "merr @ es"] by blast
  have other: "\<forall>i \<in> set (members os0 a). os1 ! i = os ! i" if "a \<noteq> k" for a
  proof
    fix i assume "i \<in> set (members os0 a)"
    then have "i < length os" and "Value (os ! i) = Some a"
      using set_members[of os0 a] len vals by auto
    then show "os1 ! i = os ! i" using s1(3) that by simp
  qed
  have run: "fold (groupStep tie vset os0) (k # ks) (os, st, merr) = (os', st', merr @ concat (es # ess))"
    using s1(1) s2(1) by simp
  have nth: "\<forall>i < length os. os' ! i =
           (case Value (os ! i) of
              None \<Rightarrow> os ! i
            | Some a \<Rightarrow>
                if a \<in> set (k # ks) then (os ! i)\<lparr>ValueSource := finalSource os (members os0 a)\<rparr>
                else os ! i)"
  proof (intro allI impI)
    fix i assume i: "i < length os"
    then have i1: "i < length os1" using s1(2) by simp
    show "os' ! i =
           (case Value (os ! i) of
              None \<Rightarrow> os ! i
            | Some a \<Rightarrow>
                if a \<in> set (k # ks) then (os ! i)\<lparr>ValueSource := finalSource os (members os0 a)\<rparr>
                else os ! i)"
    proof (cases "Value (os ! i)")
      case None
      then show ?thesis using s2(3) i1 i vals01 s1(3) by simp
    next
      case (Some a)
      show ?thesis
      proof (cases "a = k")
        case True
        then show ?thesis using s2(3) i1 i vals01 s1(3) Some knot by simp
      next
        case False
        have fs: "finalSource os1 (members os0 a) = finalSource os (members os0 a)"
          by (rule finalSource_cong[OF other[OF False]])
        show ?thesis using s2(3) i1 i vals01 s1(3) Some False fs by simp
      qed
    qed
  qed
  have store: "\<forall>a. a \<notin> set (k # ks) \<longrightarrow> st' a = st a"
    using s2(4) s1(4) by simp
  have outs: "\<forall>j < length (k # ks).
           groupOutcome vset os st (members os0 ((k # ks) ! j)) ((k # ks) ! j) ((es # ess) ! j)
             (st' ((k # ks) ! j))"
  proof (intro allI impI)
    fix j assume j: "j < length (k # ks)"
    show "groupOutcome vset os st (members os0 ((k # ks) ! j)) ((k # ks) ! j) ((es # ess) ! j)
             (st' ((k # ks) ! j))"
    proof (cases j)
      case 0
      then show ?thesis using s1(5) s2(4) knot by simp
    next
      case (Suc j')
      then have j': "j' < length ks" using j by simp
      then have ne: "ks ! j' \<noteq> k" using knot by (metis nth_mem)
      have "groupOutcome vset os1 st1 (members os0 (ks ! j')) (ks ! j') (ess ! j') (st' (ks ! j'))"
        using s2(6) j' by simp
      then have "groupOutcome vset os st (members os0 (ks ! j')) (ks ! j') (ess ! j') (st' (ks ! j'))"
        using groupOutcome_cong[OF other[OF ne], of st1 "ks ! j'" st vset "ess ! j'" "st' (ks ! j')"]
          s1(4) ne by simp
      then show ?thesis using Suc by simp
    qed
  qed
  show ?case
    using run nth store outs s2(2,5) s1(2)
    by (intro exI[of _ os'] exI[of _ st'] exI[of _ "es # ess"]) simp
qed

lemma SetDefaults_in_fold:
  "SetDefaults_in tie vset ks optSet st
     = fold (groupStep tie vset optSet) ks (optSet, st, noValueErrs optSet)"
proof -
  have "(\<lambda>k s. case (if members optSet k = [] then None else Some (members optSet k)) of
                 None \<Rightarrow> s | Some idxs \<Rightarrow> SetDefaults_group tie vset idxs s)
          = groupStep tie vset optSet"
    by (simp add: fun_eq_iff groupStep_def)
  then show ?thesis
    by (simp add: SetDefaults_in_def groupByValue_result noValueErrs_def)
qed

lemma set_valueRefs: "set (valueRefs os) = {a. \<exists>i < length os. Value (os ! i) = Some a}"
  by (auto simp: valueRefs_def List.map_filter_def in_set_conv_nth) force

lemma SetDefaults_in_result:
  assumes "iterationOrder optSet ks"
  shows "\<exists>os' st' ess.
       SetDefaults_in tie vset ks optSet st = (os', st', noValueErrs optSet @ concat ess)
     \<and> length os' = length optSet
     \<and> (\<forall>i < length optSet. os' ! i =
           (case Value (optSet ! i) of
              None \<Rightarrow> optSet ! i
            | Some a \<Rightarrow> (optSet ! i)\<lparr>ValueSource := finalSource optSet (members optSet a)\<rparr>))
     \<and> (\<forall>a. a \<notin> set ks \<longrightarrow> st' a = st a)
     \<and> length ess = length ks
     \<and> (\<forall>j < length ks.
           groupOutcome vset optSet st (members optSet (ks ! j)) (ks ! j) (ess ! j) (st' (ks ! j)))"
proof -
  have dist: "distinct ks" and cover: "set ks = set (valueRefs optSet)"
    using assms by (simp_all add: iterationOrder_def)
  obtain os' st' ess where r:
      "fold (groupStep tie vset optSet) ks (optSet, st, noValueErrs optSet)
         = (os', st', noValueErrs optSet @ concat ess)"
      "length os' = length optSet"
      "\<forall>i < length optSet. os' ! i =
           (case Value (optSet ! i) of
              None \<Rightarrow> optSet ! i
            | Some a \<Rightarrow>
                if a \<in> set ks then (optSet ! i)\<lparr>ValueSource := finalSource optSet (members optSet a)\<rparr>
                else optSet ! i)"
      "\<forall>a. a \<notin> set ks \<longrightarrow> st' a = st a"
      "length ess = length ks"
      "\<forall>j < length ks.
           groupOutcome vset optSet st (members optSet (ks ! j)) (ks ! j) (ess ! j) (st' (ks ! j))"
    using fold_groupStep[OF dist, of optSet optSet tie vset st "noValueErrs optSet"] by auto
  have nth: "\<forall>i < length optSet. os' ! i =
           (case Value (optSet ! i) of
              None \<Rightarrow> optSet ! i
            | Some a \<Rightarrow> (optSet ! i)\<lparr>ValueSource := finalSource optSet (members optSet a)\<rparr>)"
  proof (intro allI impI)
    fix i assume i: "i < length optSet"
    show "os' ! i =
           (case Value (optSet ! i) of
              None \<Rightarrow> optSet ! i
            | Some a \<Rightarrow> (optSet ! i)\<lparr>ValueSource := finalSource optSet (members optSet a)\<rparr>)"
    proof (cases "Value (optSet ! i)")
      case None
      then show ?thesis using r(3) i by simp
    next
      case (Some a)
      then have "a \<in> set ks" using cover i by (auto simp: set_valueRefs)
      then show ?thesis using r(3) i Some by simp
    qed
  qed
  show ?thesis
    using r(1,2,4,5,6) nth
    by (intro exI[of _ os'] exI[of _ st'] exI[of _ ess]) (simp add: SetDefaults_in_fold)
qed

lemma iterationOrder_canonical: "iterationOrder optSet (rev (remdups (rev (valueRefs optSet))))"
  by (simp add: iterationOrder_def)

lemma priorSource_unfold:
  "priorSource os idxs =
     (let S = (\<lambda>i. ValueSource (os ! i)) ` set idxs in
      if ValueSourceFlag \<in> S then ValueSourceFlag
      else if ValueSourceEnv \<in> S then ValueSourceEnv
      else if ValueSourceYAML \<in> S then ValueSourceYAML
      else if ValueSourceDefault \<in> S then ValueSourceDefault
      else ValueSourceNone)"
  by (simp add: priorSource_def valueSourcePriority_def Let_def)

lemma priorSource_in:
  assumes "idxs \<noteq> []"
  shows "priorSource os idxs \<in> (\<lambda>i. ValueSource (os ! i)) ` set idxs"
proof -
  obtain i where i: "i \<in> set idxs" using assms by (cases idxs) auto
  show ?thesis
  proof (cases "priorSource os idxs = ValueSourceNone")
    case True
    then have "ValueSource (os ! i) = ValueSourceNone" using i by (simp add: priorSource_None_iff)
    then show ?thesis using True i by force
  next
    case False
    then show ?thesis
      unfolding priorSource_unfold Let_def by (simp split: if_splits)
  qed
qed

lemma priorSource_least:
  assumes "i \<in> set idxs"
  shows "priority (priorSource os idxs) \<le> priority (ValueSource (os ! i))"
proof -
  have occ: "ValueSource (os ! i) \<in> (\<lambda>i. ValueSource (os ! i)) ` set idxs"
    using assms by blast
  show ?thesis
  proof (cases "ValueSource (os ! i)")
    case ValueSourceNone
    then show ?thesis using priority_le_4 by (simp add: priority_simps)
  next
    case ValueSourceFlag
    then show ?thesis using occ unfolding priorSource_unfold Let_def by simp
  next
    case ValueSourceEnv
    then show ?thesis using occ unfolding priorSource_unfold Let_def by (simp add: priority_simps)
  next
    case ValueSourceYAML
    then show ?thesis using occ unfolding priorSource_unfold Let_def by (simp add: priority_simps)
  next
    case ValueSourceDefault
    then show ?thesis using occ unfolding priorSource_unfold Let_def by (simp add: priority_simps)
  qed
qed

lemma priorSource_uniform:
  assumes "i \<in> set idxs" and "\<forall>j \<in> set idxs. ValueSource (os ! j) = ValueSource (os ! i)"
  shows "priorSource os idxs = ValueSource (os ! i)"
proof -
  have "idxs \<noteq> []" using assms(1) by auto
  then have "priorSource os idxs \<in> (\<lambda>i. ValueSource (os ! i)) ` set idxs"
    by (rule priorSource_in)
  then show ?thesis using assms(2) by auto
qed

lemma ParseEnv_loop_Some_valued:
  "ParseEnv_loop vset envs optSet st merr = Some r \<Longrightarrow> envValued envs optSet"
proof (induction optSet arbitrary: st merr r)
  case Nil
  show ?case by (simp add: envValued_def)
next
  case (Cons opt rest)
  obtain opt' st' es where b: "ParseEnv_body vset envs opt st = Some (opt', st', es)"
    using Cons.prems by (auto split: option.splits)
  then obtain r' where "ParseEnv_loop vset envs rest st' (merr @ es) = Some r'"
    using Cons.prems by (auto split: option.splits)
  then have "envValued envs rest" by (rule Cons.IH)
  moreover have "envBinding envs opt \<noteq> None \<longrightarrow> Value opt \<noteq> None"
    using b by (auto simp: ParseEnv_body_binding split: option.splits)
  ultimately show ?case by (simp add: envValued_def)
qed

lemma ParseEnv_Some:
  assumes "ParseEnv vset vs optSet st = Some (os1, st1, errs1)"
  shows "envValued (envMap vs) optSet"
    and "os1 = map (envMark (envMap vs)) optSet"
    and "st1 = envStore vset (envMap vs) optSet st"
    and "errs1 = envParseFailures vset (envMap vs) optSet st"
proof -
  show v: "envValued (envMap vs) optSet"
    using assms ParseEnv_loop_Some_valued by (auto simp: ParseEnv_def)
  show "os1 = map (envMark (envMap vs)) optSet"
    and "st1 = envStore vset (envMap vs) optSet st"
    and "errs1 = envParseFailures vset (envMap vs) optSet st"
    using assms ParseEnv_result[OF v, of vset st] by simp_all
qed

lemma Value_envMark: "Value (envMark envs opt) = Value opt"
  by (simp add: envMark_def)

lemma Default_envMark: "Default (envMark envs opt) = Default opt"
  by (simp add: envMark_def)

lemma valueRefs_envMark: "valueRefs (map (envMark envs) os) = valueRefs os"
  by (induction os) (simp_all add: valueRefs_def List.map_filter_def Value_envMark)

lemma iterationOrder_envMark:
  "iterationOrder (map (envMark envs) os) ks \<longleftrightarrow> iterationOrder os ks"
  by (simp add: iterationOrder_def valueRefs_envMark)











section \<open>Claims about ParseEnv\<close>

text \<open>
  C8: \<^verbatim>\<open>ParseEnv\<close> does not stop at a value that fails to parse. When no option
  that is to be set lacks a value, it returns: every option with an applicable
  environment value is marked and set, the ones after a failing option included, and
  the error returned is the join, in order, of the failure of each option.
\<close>

theorem ParseEnv_joins_all_failures:
  assumes "envValued (envMap vs) optSet"
  shows "ParseEnv vset vs optSet st =
           Some (map (envMark (envMap vs)) optSet,
                 envStore vset (envMap vs) optSet st,
                 concat (map (envFailureAt vset (envMap vs) optSet st) [0..<length optSet]))"
  using assms by (simp add: ParseEnv_result envParseFailures_concat)

theorem ParseEnv_joins_all_failures_witness:
  "envValued (envMap envExampleEnviron) envExampleOptions \<and>
   map_option (\<lambda>(os, st, errs). (map ValueSource os, st 2, errs))
     (ParseEnv Val_Set envExampleEnviron envExampleOptions envExampleStore)
   = Some ([ValueSourceEnv, ValueSourceEnv, ValueSourceEnv], StringVal ''bar'',
           [ParseErr ''Verbose'' ''invalid syntax'', ParseErr ''Color'' ''invalid syntax''])"
  using ParseEnv_joins_all_failures[OF envExample_valued, of Val_Set envExampleStore]
    envExample_valued
  by (simp add: envExampleOptions_def envExampleEnviron_def envExampleStore_def envMap_def
      envBinding_def envMark_def envFailureAt_def newOption_def ParseBool_def upt_rec)

text \<open>
  C10: an option whose environment value fails to parse keeps the source
  \<^verbatim>\<open>env\<close>: the source is written before \<^verbatim>\<open>Set\<close> is called and is not
  taken back when \<^verbatim>\<open>Set\<close> fails, while the failure is part of the error that
  \<^verbatim>\<open>ParseEnv\<close> returns.
\<close>

theorem ParseEnv_source_survives_parse_failure:
  assumes "i < length optSet"
    and "envValued (envMap vs) optSet"
    and "envBinding (envMap vs) (optSet ! i) = Some v"
    and "Value (optSet ! i) = Some a"
    and "fst (vset (envStore vset (envMap vs) (take i optSet) st a) v) = Some e"
  shows "\<exists>os' st' errs.
           ParseEnv vset vs optSet st = Some (os', st', errs)
         \<and> ValueSource (os' ! i) = ValueSourceEnv
         \<and> ParseErr (Name (optSet ! i)) e \<in> set errs"
proof -
  have "envFailureAt vset (envMap vs) optSet st i = [ParseErr (Name (optSet ! i)) e]"
    using assms by (simp add: envFailureAt_def)
  then have "ParseErr (Name (optSet ! i)) e
               \<in> set (concat (map (envFailureAt vset (envMap vs) optSet st) [0..<length optSet]))"
    using assms(1) by (auto intro!: bexI[of _ i])
  moreover have "ValueSource (map (envMark (envMap vs)) optSet ! i) = ValueSourceEnv"
    using assms by (simp add: envMark_def)
  ultimately show ?thesis
    using assms(2) by (simp add: ParseEnv_result envParseFailures_concat)
qed

theorem ParseEnv_source_survives_parse_failure_witness:
  "(\<exists>os' st' errs.
      ParseEnv Val_Set envExampleEnviron envExampleOptions envExampleStore = Some (os', st', errs)
    \<and> ValueSource (os' ! 1) = ValueSourceEnv
    \<and> ParseErr ''Color'' ''invalid syntax'' \<in> set errs)"
proof -
  have 1: "(1::nat) < length envExampleOptions" by (simp add: envExampleOptions_def)
  have 3: "envBinding (envMap envExampleEnviron) (envExampleOptions ! 1) = Some ''blue''"
    by (simp add: envExampleOptions_def envExampleEnviron_def envMap_def envBinding_def newOption_def)
  have 4: "Value (envExampleOptions ! 1) = Some 1"
    by (simp add: envExampleOptions_def newOption_def)
  have 5: "fst (Val_Set (envStore Val_Set (envMap envExampleEnviron) (take 1 envExampleOptions)
                  envExampleStore 1) ''blue'') = Some ''invalid syntax''"
    by (simp add: envExampleOptions_def envExampleEnviron_def envExampleStore_def envMap_def
        envBinding_def newOption_def ParseBool_def)
  have "Name (envExampleOptions ! 1) = ''Color''"
    by (simp add: envExampleOptions_def newOption_def)
  then show ?thesis
    using ParseEnv_source_survives_parse_failure[where i = 1 and vs = envExampleEnviron
        and optSet = envExampleOptions and v = "''blue''" and a = 1 and vset = Val_Set
        and st = envExampleStore and e = "''invalid syntax''"]
      1 envExample_valued 3 4 5
    by simp
qed

section \<open>Claims about SetDefaults\<close>

text \<open>
  C6: after \<^verbatim>\<open>ParseEnv\<close> followed by \<^verbatim>\<open>SetDefaults\<close>, in whatever order
  the groups are visited and the ties are sorted, two options that hold the same value
  report the same source, and that source is the winner's: when a member of the group
  carries a source after \<^verbatim>\<open>ParseEnv\<close>, it is the source of a member and no member
  has one of higher priority; when no member carries one, it is \<^verbatim>\<open>default\<close> if
  a member declares a default and \<^verbatim>\<open>none\<close> otherwise.
\<close>

theorem aliases_report_winning_source:
  assumes "ParseEnv vset vs optSet st = Some (os1, st1, errs1)"
    and "iterationOrder optSet ks"
    and "SetDefaults_in tie vset ks os1 st1 = (os2, st2, errs2)"
    and "i < length optSet" and "j < length optSet"
    and "Value (optSet ! i) = Some a" and "Value (optSet ! j) = Some a"
  shows "ValueSource (os2 ! i) = ValueSource (os2 ! j)
       \<and> ValueSource (os2 ! i) = finalSource os1 (members optSet a)
       \<and> (priorSource os1 (members optSet a) \<noteq> ValueSourceNone \<longrightarrow>
             (\<exists>k \<in> set (members optSet a). ValueSource (os2 ! i) = ValueSource (os1 ! k))
           \<and> (\<forall>k \<in> set (members optSet a).
                 priority (ValueSource (os2 ! i)) \<le> priority (ValueSource (os1 ! k))))
       \<and> (priorSource os1 (members optSet a) = ValueSourceNone \<longrightarrow>
             (\<forall>k \<in> set (members optSet a). ValueSource (os1 ! k) = ValueSourceNone)
           \<and> ValueSource (os2 ! i) =
               (if \<exists>k \<in> set (members optSet a). Default (optSet ! k) \<noteq> []
                then ValueSourceDefault else ValueSourceNone))"
proof -
  have os1: "os1 = map (envMark (envMap vs)) optSet"
    using ParseEnv_Some(2)[OF assms(1)] .
  have ord: "iterationOrder os1 ks"
    using assms(2) by (simp add: os1 iterationOrder_envMark)
  have len: "length os1 = length optSet" by (simp add: os1)
  have vals: "\<forall>k < length optSet. Value (os1 ! k) = Value (optSet ! k)"
    by (simp add: os1 Value_envMark)
  have mem: "members os1 a = members optSet a"
    by (rule members_cong[OF len vals])
  have vi: "Value (os1 ! i) = Some a" and vj: "Value (os1 ! j) = Some a"
    using assms(4-7) vals by simp_all
  obtain os' st' ess where r:
      "SetDefaults_in tie vset ks os1 st1 = (os', st', noValueErrs os1 @ concat ess)"
      "\<forall>i < length os1. os' ! i =
           (case Value (os1 ! i) of
              None \<Rightarrow> os1 ! i
            | Some a \<Rightarrow> (os1 ! i)\<lparr>ValueSource := finalSource os1 (members os1 a)\<rparr>)"
    using SetDefaults_in_result[OF ord, of tie vset st1] by blast
  have os2: "os2 = os'" using r(1) assms(3) by simp
  have fi: "ValueSource (os2 ! i) = finalSource os1 (members optSet a)"
    using r(2) vi assms(4) len os2 mem by simp
  have fj: "ValueSource (os2 ! j) = finalSource os1 (members optSet a)"
    using r(2) vj assms(5) len os2 mem by simp
  have "i \<in> set (members optSet a)"
    unfolding set_members using assms(4,6) by blast
  then have ne: "members optSet a \<noteq> []"
    by (cases "members optSet a") simp_all
  have win: "(\<exists>k \<in> set (members optSet a). ValueSource (os2 ! i) = ValueSource (os1 ! k))
           \<and> (\<forall>k \<in> set (members optSet a).
                 priority (ValueSource (os2 ! i)) \<le> priority (ValueSource (os1 ! k)))"
    if p: "priorSource os1 (members optSet a) \<noteq> ValueSourceNone"
  proof -
    have eq: "ValueSource (os2 ! i) = priorSource os1 (members optSet a)"
      using fi p by (simp add: finalSource_def)
    have "priorSource os1 (members optSet a) \<in> (\<lambda>k. ValueSource (os1 ! k)) ` set (members optSet a)"
      by (rule priorSource_in[OF ne])
    then have ex: "\<exists>k \<in> set (members optSet a). ValueSource (os2 ! i) = ValueSource (os1 ! k)"
      unfolding eq by blast
    have "\<forall>k \<in> set (members optSet a).
             priority (ValueSource (os2 ! i)) \<le> priority (ValueSource (os1 ! k))"
      unfolding eq using priorSource_least by blast
    then show ?thesis using ex by blast
  qed
  have gd: "groupDefaults os1 (members optSet a) = []
              \<longleftrightarrow> \<not> (\<exists>k \<in> set (members optSet a). Default (optSet ! k) \<noteq> [])"
  proof -
    have "\<forall>k \<in> set (members optSet a). Default (os1 ! k) = Default (optSet ! k)"
      using set_members[of optSet a] by (auto simp: os1 Default_envMark)
    then show ?thesis
      by (auto simp: groupDefaults_def filter_empty_conv)
  qed
  have none: "(\<forall>k \<in> set (members optSet a). ValueSource (os1 ! k) = ValueSourceNone)
           \<and> ValueSource (os2 ! i) =
               (if \<exists>k \<in> set (members optSet a). Default (optSet ! k) \<noteq> []
                then ValueSourceDefault else ValueSourceNone)"
    if p: "priorSource os1 (members optSet a) = ValueSourceNone"
  proof -
    have a1: "\<forall>k \<in> set (members optSet a). ValueSource (os1 ! k) = ValueSourceNone"
      using p by (simp add: priorSource_None_iff)
    have "ValueSource (os2 ! i) =
            (if groupDefaults os1 (members optSet a) = [] then ValueSourceNone else ValueSourceDefault)"
      using fi p by (simp add: finalSource_def)
    then have "ValueSource (os2 ! i) =
               (if \<exists>k \<in> set (members optSet a). Default (optSet ! k) \<noteq> []
                then ValueSourceDefault else ValueSourceNone)"
      unfolding gd by simp
    then show ?thesis using a1 by blast
  qed
  have same: "ValueSource (os2 ! i) = ValueSource (os2 ! j)"
    using fi fj by simp
  have w: "priorSource os1 (members optSet a) \<noteq> ValueSourceNone \<longrightarrow>
             (\<exists>k \<in> set (members optSet a). ValueSource (os2 ! i) = ValueSource (os1 ! k))
           \<and> (\<forall>k \<in> set (members optSet a).
                 priority (ValueSource (os2 ! i)) \<le> priority (ValueSource (os1 ! k)))"
    using win by (rule impI)
  have n: "priorSource os1 (members optSet a) = ValueSourceNone \<longrightarrow>
             (\<forall>k \<in> set (members optSet a). ValueSource (os1 ! k) = ValueSourceNone)
           \<and> ValueSource (os2 ! i) =
               (if \<exists>k \<in> set (members optSet a). Default (optSet ! k) \<noteq> []
                then ValueSourceDefault else ValueSourceNone)"
    using none by (rule impI)
  from same fi w n show ?thesis by (intro conjI)
qed

theorem aliases_report_winning_source_witness:
  "(\<exists>os1 st1 errs1 os2 st2 errs2.
      ParseEnv Val_Set aliasExampleEnviron aliasExampleOptions emptyStrings = Some (os1, st1, errs1)
    \<and> iterationOrder aliasExampleOptions [1, 0]
    \<and> SetDefaults_in id Val_Set [1, 0] os1 st1 = (os2, st2, errs2)
    \<and> Value (aliasExampleOptions ! 0) = Some 0
    \<and> Value (aliasExampleOptions ! 1) = Some 0
    \<and> map ValueSource os1 = [ValueSourceEnv, ValueSourceNone, ValueSourceNone]
    \<and> finalSource os1 (members aliasExampleOptions 0) = ValueSourceEnv
    \<and> ValueSource (os2 ! 0) = ValueSourceEnv
    \<and> ValueSource (os2 ! 1) = ValueSourceEnv)"
proof -
  obtain os1 st1 errs1 where
    env: "ParseEnv Val_Set aliasExampleEnviron aliasExampleOptions emptyStrings = Some (os1, st1, errs1)"
    by (cases "ParseEnv Val_Set aliasExampleEnviron aliasExampleOptions emptyStrings")
       (simp_all add: ParseEnv_result envValued_def aliasExampleOptions_def newOption_def)
  obtain os2 st2 errs2 where def: "SetDefaults_in id Val_Set [1, 0] os1 st1 = (os2, st2, errs2)"
    by (cases "SetDefaults_in id Val_Set [1, 0] os1 st1") auto
  have ord: "iterationOrder aliasExampleOptions [1, 0]" by code_simp
  have len: "0 < length aliasExampleOptions" "1 < length aliasExampleOptions"
    by (simp_all add: aliasExampleOptions_def)
  have val: "Value (aliasExampleOptions ! 0) = Some 0" "Value (aliasExampleOptions ! 1) = Some 0"
    by (simp_all add: aliasExampleOptions_def newOption_def)
  have both: "ValueSource (os2 ! 0) = ValueSource (os2 ! 1)
           \<and> ValueSource (os2 ! 0) = finalSource os1 (members aliasExampleOptions 0)"
    using aliases_report_winning_source[OF env ord def len val] by blast
  have "map_option (\<lambda>(os, st, errs). (map ValueSource os, finalSource os (members aliasExampleOptions 0)))
          (ParseEnv Val_Set aliasExampleEnviron aliasExampleOptions emptyStrings)
        = Some ([ValueSourceEnv, ValueSourceNone, ValueSourceNone], ValueSourceEnv)"
    by code_simp
  then have ev: "map ValueSource os1 = [ValueSourceEnv, ValueSourceNone, ValueSourceNone]"
      "finalSource os1 (members aliasExampleOptions 0) = ValueSourceEnv"
    using env by simp_all
  show ?thesis
    using env ord def val both ev by auto
qed

text \<open>
  C7: on a resolved option set \<^verbatim>\<open>SetDefaults\<close> changes nothing. When every
  group carries a source other than \<^verbatim>\<open>none\<close>, it leaves the store as it is,
  applies and reports no default, lowers the priority of no option's source and
  touches no other field; and when moreover the options that share a value agree on
  their source, as they do after a resolution, the option set is returned unchanged.
\<close>

theorem SetDefaults_again_changes_nothing:
  assumes "iterationOrder optSet ks"
    and "everyGroupSourced optSet"
  shows "\<exists>os'. SetDefaults_in tie vset ks optSet st = (os', st, noValueErrs optSet)
     \<and> length os' = length optSet
     \<and> (\<forall>i < length optSet.
           priority (ValueSource (os' ! i)) \<le> priority (ValueSource (optSet ! i))
         \<and> os' ! i = (optSet ! i)\<lparr>ValueSource := ValueSource (os' ! i)\<rparr>)
     \<and> (aliasesAgree optSet \<longrightarrow> os' = optSet)"
proof -
  obtain os' st' ess where r:
      "SetDefaults_in tie vset ks optSet st = (os', st', noValueErrs optSet @ concat ess)"
      "length os' = length optSet"
      "\<forall>i < length optSet. os' ! i =
           (case Value (optSet ! i) of
              None \<Rightarrow> optSet ! i
            | Some a \<Rightarrow> (optSet ! i)\<lparr>ValueSource := finalSource optSet (members optSet a)\<rparr>)"
      "\<forall>a. a \<notin> set ks \<longrightarrow> st' a = st a"
      "length ess = length ks"
      "\<forall>j < length ks.
           groupOutcome vset optSet st (members optSet (ks ! j)) (ks ! j) (ess ! j) (st' (ks ! j))"
    using SetDefaults_in_result[OF assms(1), of tie vset st] by blast
  have cover: "set ks = set (valueRefs optSet)"
    using assms(1) by (simp add: iterationOrder_def)
  have sourced: "priorSource optSet (members optSet (ks ! j)) \<noteq> ValueSourceNone" if "j < length ks" for j
  proof -
    have "ks ! j \<in> set (valueRefs optSet)" using that cover by (metis nth_mem)
    then obtain i where "i < length optSet" "Value (optSet ! i) = Some (ks ! j)"
      by (auto simp: set_valueRefs)
    then show ?thesis using assms(2) by (simp add: everyGroupSourced_def)
  qed
  have quiet: "ess ! j = [] \<and> st' (ks ! j) = st (ks ! j)" if "j < length ks" for j
    using r(6) sourced[OF that] that by (auto simp: groupOutcome_def)
  have "\<forall>es \<in> set ess. es = []"
    using quiet r(5) by (metis in_set_conv_nth)
  then have ess: "concat ess = []" by simp
  have "st' a = st a" for a
  proof (cases "a \<in> set ks")
    case True
    then obtain j where "j < length ks" "ks ! j = a" by (auto simp: in_set_conv_nth)
    then show ?thesis using quiet by auto
  next
    case False
    then show ?thesis using r(4) by simp
  qed
  then have st: "st' = st" by (simp add: fun_eq_iff)
  have fin: "finalSource optSet (members optSet a) = priorSource optSet (members optSet a)"
    if "i < length optSet" "Value (optSet ! i) = Some a" for i a
    using assms(2) that by (simp add: everyGroupSourced_def finalSource_def)
  have each: "priority (ValueSource (os' ! i)) \<le> priority (ValueSource (optSet ! i))
         \<and> os' ! i = (optSet ! i)\<lparr>ValueSource := ValueSource (os' ! i)\<rparr>" if i: "i < length optSet" for i
  proof (cases "Value (optSet ! i)")
    case None
    then show ?thesis using r(3) i by simp
  next
    case (Some a)
    then have "i \<in> set (members optSet a)" using i by (simp add: set_members)
    then have "priority (priorSource optSet (members optSet a)) \<le> priority (ValueSource (optSet ! i))"
      by (rule priorSource_least)
    then show ?thesis using r(3) i Some fin[OF i Some] by simp
  qed
  have same: "os' = optSet" if agree: "aliasesAgree optSet"
  proof (rule nth_equalityI)
    show "length os' = length optSet" by (rule r(2))
  next
    fix i assume "i < length os'"
    then have i: "i < length optSet" using r(2) by simp
    show "os' ! i = optSet ! i"
    proof (cases "Value (optSet ! i)")
      case None
      then show ?thesis using r(3) i by simp
    next
      case (Some a)
      then have mem: "i \<in> set (members optSet a)" using i by (simp add: set_members)
      have "\<forall>j \<in> set (members optSet a). ValueSource (optSet ! j) = ValueSource (optSet ! i)"
      proof
        fix j assume "j \<in> set (members optSet a)"
        then have j: "j < length optSet" "Value (optSet ! j) = Some a"
          by (simp_all add: set_members)
        have "Value (optSet ! j) \<noteq> None \<and> Value (optSet ! j) = Value (optSet ! i)"
          using j(2) Some by simp
        then show "ValueSource (optSet ! j) = ValueSource (optSet ! i)"
          using agree i j(1) unfolding aliasesAgree_def by blast
      qed
      then have "priorSource optSet (members optSet a) = ValueSource (optSet ! i)"
        by (rule priorSource_uniform[OF mem])
      then show ?thesis using r(3) i Some fin[OF i Some] by simp
    qed
  qed
  have run: "SetDefaults_in tie vset ks optSet st = (os', st, noValueErrs optSet)"
    using r(1) st ess by simp
  have all: "\<forall>i < length optSet.
           priority (ValueSource (os' ! i)) \<le> priority (ValueSource (optSet ! i))
         \<and> os' ! i = (optSet ! i)\<lparr>ValueSource := ValueSource (os' ! i)\<rparr>"
    using each by blast
  have imp: "aliasesAgree optSet \<longrightarrow> os' = optSet"
    using same by blast
  show ?thesis
    using run r(2) all imp by blast
qed

theorem SetDefaults_again_changes_nothing_witness:
  "iterationOrder resolvedExampleOptions [0, 1]
   \<and> everyGroupSourced resolvedExampleOptions
   \<and> aliasesAgree resolvedExampleOptions
   \<and> SetDefaults_in id Val_Set [0, 1] resolvedExampleOptions emptyStrings
       = (resolvedExampleOptions, emptyStrings, [])"
proof -
  have ord: "iterationOrder resolvedExampleOptions [0, 1]" by code_simp
  have src: "everyGroupSourced resolvedExampleOptions"
    unfolding everyGroupSourced_def
    by (simp add: resolvedExampleOptions_def newOption_def members_def priorSource_def
        valueSourcePriority_def less_Suc_eq upt_rec)
  have agree: "aliasesAgree resolvedExampleOptions"
    unfolding aliasesAgree_def
    by (simp add: resolvedExampleOptions_def newOption_def less_Suc_eq)
  have none: "noValueErrs resolvedExampleOptions = []"
    by (simp add: noValueErrs_def resolvedExampleOptions_def newOption_def)
  show ?thesis
    using SetDefaults_again_changes_nothing[OF ord src, of id Val_Set emptyStrings] ord src agree none
    by auto
qed





end
